theory Spec2Isabelle
  imports Main "HOL-Library.Word"
begin

section \<open>The time-binning engine of photon-tools (\<^verbatim>\<open>bin_photons.pyx\<close>)\<close>

text \<open>
  \<^verbatim>\<open>bin_photons(times, bin_width, start_t=-1, end_t=-1, include_zeros=True)\<close> is a Cython
  function over C integers. The embedding keeps the C types of the source:
  \<^item> \<^verbatim>\<open>times\<close> is an array of \<^verbatim>\<open>uint64\<close>, \<^verbatim>\<open>start_t\<close>, \<^verbatim>\<open>end_t\<close>, \<^verbatim>\<open>bin_start\<close> and
    \<^verbatim>\<open>new_start\<close> are \<^verbatim>\<open>uint64_t\<close>: \<open>64 word\<close>, whose \<open>+\<close> and \<open>*\<close> wrap around;
  \<^item> \<^verbatim>\<open>bin_width\<close> is a C \<^verbatim>\<open>int\<close>: a \<open>32 word\<close> read through \<open>sint\<close>; in an operation with
    a \<^verbatim>\<open>uint64_t\<close> it is converted to \<^verbatim>\<open>uint64_t\<close> (sign extension, \<open>scast\<close>);
  \<^item> \<^verbatim>\<open>bin_count\<close> is a C \<^verbatim>\<open>short\<close> stored into the \<^verbatim>\<open>u2\<close> field \<^verbatim>\<open>count\<close>: 16 bits,
    \<open>16 word\<close>, and \<^verbatim>\<open>bin_count += 1\<close> wraps around;
  \<^item> "not given" for \<^verbatim>\<open>start_t\<close> and \<^verbatim>\<open>end_t\<close> is the default \<^verbatim>\<open>-1\<close>, the all-ones word;
  \<^item> \<^verbatim>\<open>/\<close> between C integers is integer division (the file has no language-level
    directive and no \<^verbatim>\<open>__future__\<close> import); with the default \<^verbatim>\<open>cdivision=False\<close> a zero
    divisor raises \<^verbatim>\<open>ZeroDivisionError\<close>;
  \<^item> with the default \<^verbatim>\<open>boundscheck=True\<close> an index outside the buffer raises
    \<^verbatim>\<open>IndexError\<close>;
  \<^item> the step of \<^verbatim>\<open>range(a, b, bin_width)\<close> is not a compile-time constant, so the loop runs
    over Python's \<^verbatim>\<open>range\<close> of the three values and every item is converted to the declared
    \<^verbatim>\<open>Py_ssize_t j\<close>, which raises \<^verbatim>\<open>OverflowError\<close> outside the signed 64-bit range.
\<close>

datatype error = IndexError | ZeroDivisionError | OverflowError

text \<open>
  The record type \<^verbatim>\<open>Bin\<close> comes from \<^verbatim>\<open>timetag_types\<close>; its two fields are the ones the
  docstring of \<^verbatim>\<open>bin_photons\<close> lists: \<^verbatim>\<open>start_t (u8)\<close> and \<^verbatim>\<open>count (u2)\<close>.
\<close>

record Bin =
  start_t :: "64 word"
  count :: "16 word"

subsection \<open>Chunked output buffer\<close>

definition chunk_sz :: nat where
  "chunk_sz = 10000"

text \<open>
  \<^verbatim>\<open>np.empty(chunk_sz, dtype=bin_dtype)\<close>: an array of \<^verbatim>\<open>chunk_sz\<close> entries of unspecified
  content; the placeholder below stands for that content.
\<close>

definition new_chunk :: "Bin list" where
  "new_chunk = replicate chunk_sz \<lparr>start_t = 0, count = 0\<rparr>"

text \<open>The three variables \<^verbatim>\<open>chunks\<close>, \<^verbatim>\<open>chunk\<close> and \<^verbatim>\<open>bin\<close> of the source.\<close>

record buffer =
  chunks :: "Bin list list"
  chunk :: "Bin list"
  bin :: nat

definition init_buffer :: buffer where
  "init_buffer = \<lparr>chunks = [], chunk = new_chunk, bin = 0\<rparr>"

text \<open>
  Writing one entry:
  \<^verbatim>\<open>chunk[bin].start_t = ..; chunk[bin].count = ..; bin += 1;
  if bin == chunk_sz: chunks.append(chunk); chunk = np.empty(..); bin = 0\<close>
\<close>

definition emit :: "Bin \<Rightarrow> buffer \<Rightarrow> buffer" where
  "emit b s =
     (let c = (chunk s)[bin s := b]; n = bin s + 1
      in if n = chunk_sz then \<lparr>chunks = chunks s @ [c], chunk = new_chunk, bin = 0\<rparr>
         else \<lparr>chunks = chunks s, chunk = c, bin = n\<rparr>)"

text \<open>\<^verbatim>\<open>chunks.append(chunk[:bin]); return np.hstack(chunks)\<close>\<close>

definition finish :: "buffer \<Rightarrow> Bin list" where
  "finish s = concat (chunks s @ [take (bin s) (chunk s)])"

subsection \<open>Python's range\<close>

text \<open>The items of \<^verbatim>\<open>range(a, b, step)\<close> for a step other than 0.\<close>

definition py_range :: "int \<Rightarrow> int \<Rightarrow> int \<Rightarrow> int list" where
  "py_range a b step =
     (if 0 < step then map (\<lambda>k. a + int k * step) [0 ..< nat ((b - a + step - 1) div step)]
      else if step < 0 then map (\<lambda>k. a + int k * step) [0 ..< nat ((a - b - step - 1) div (- step))]
      else [])"

text \<open>
  The body of both zero-filling loops
  \<^verbatim>\<open>for j in range(..): chunk[bin].start_t = j; chunk[bin].count = 0; bin += 1; ..\<close>
  over the items of the range.
\<close>

fun zero_fill :: "int list \<Rightarrow> buffer \<Rightarrow> error + buffer" where
  "zero_fill [] s = Inr s"
| "zero_fill (j # js) s =
     (if j < - (2 ^ 63) \<or> 2 ^ 63 \<le> j then Inl OverflowError
      else zero_fill js (emit \<lparr>start_t = word_of_int j, count = 0\<rparr> s))"

subsection \<open>The pass over the events\<close>

text \<open>
  \<^verbatim>\<open>for i in range(times.shape[0]): ..\<close> on the events still to come, with the variables
  \<^verbatim>\<open>bin_start\<close> and \<^verbatim>\<open>bin_count\<close> and the buffer as the state. The divisor of
  \<^verbatim>\<open>times[i] / bin_width\<close> is not 0 here: \<^verbatim>\<open>bin_photons\<close> has divided by it before the loop.
\<close>

fun event_loop ::
  "32 word \<Rightarrow> bool \<Rightarrow> 64 word list \<Rightarrow> buffer \<Rightarrow> 64 word \<Rightarrow> 16 word
     \<Rightarrow> error + (buffer \<times> 64 word \<times> 16 word)" where
  "event_loop bin_width include_zeros [] s bin_start bin_count = Inr (s, bin_start, bin_count)"
| "event_loop bin_width include_zeros (t # ts) s bin_start bin_count =
     (if bin_start + scast bin_width \<le> t then
        (let new_start = (t div scast bin_width) * scast bin_width;
             s1 = emit \<lparr>start_t = bin_start, count = bin_count\<rparr> s
         in case (if include_zeros
                  then zero_fill (py_range (uint (bin_start + scast bin_width)) (uint new_start)
                                    (sint bin_width)) s1
                  else Inr s1) of
              Inl e \<Rightarrow> Inl e
            | Inr s2 \<Rightarrow> event_loop bin_width include_zeros ts s2 new_start (0 + 1))
      else event_loop bin_width include_zeros ts s bin_start (bin_count + 1))"

text \<open>
  \<^verbatim>\<open>bin_start = times[0] if start_t == -1 else start_t\<close> and
  \<^verbatim>\<open>bin_start = (bin_start / bin_width) * bin_width\<close>, for a non-empty \<^verbatim>\<open>times\<close> or a given
  \<^verbatim>\<open>start_t\<close>, and a \<^verbatim>\<open>bin_width\<close> other than 0.
\<close>

definition first_bin_start :: "64 word list \<Rightarrow> 32 word \<Rightarrow> 64 word \<Rightarrow> 64 word" where
  "first_bin_start times' bin_width start_arg =
     ((if start_arg = - 1 then hd times' else start_arg) div scast bin_width) * scast bin_width"

text \<open>
  The whole function. \<open>start_arg\<close> and \<open>end_arg\<close> are the parameters \<^verbatim>\<open>start_t\<close> and
  \<^verbatim>\<open>end_t\<close> (the name \<open>start_t\<close> is the field of \<open>Bin\<close>), \<open>times'\<close> is \<^verbatim>\<open>times\<close>.
\<close>

definition bin_photons ::
  "64 word list \<Rightarrow> 32 word \<Rightarrow> 64 word \<Rightarrow> 64 word \<Rightarrow> bool \<Rightarrow> error + Bin list" where
  "bin_photons times' bin_width start_arg end_arg include_zeros =
     (if start_arg = - 1 \<and> times' = [] then Inl IndexError
      else if bin_width = 0 then Inl ZeroDivisionError
      else
        case event_loop bin_width include_zeros times' init_buffer
               (first_bin_start times' bin_width start_arg) 0 of
          Inl e \<Rightarrow> Inl e
        | Inr (s, bin_start, bin_count) \<Rightarrow>
            (case (if include_zeros \<and> end_arg \<noteq> - 1
                   then zero_fill (py_range (uint (bin_start + scast bin_width)) (uint end_arg)
                                     (sint bin_width)) s
                   else Inr s) of
               Inl e \<Rightarrow> Inl e
             | Inr s' \<Rightarrow> Inr (finish s')))"

subsection \<open>The same algorithm on one dynamically grown buffer\<close>

text \<open>
  The design allows "a single amortized-growth dynamic array" in place of the chunks.
  The definitions below are \<open>zero_fill\<close>, \<open>event_loop\<close> and \<open>bin_photons\<close> again, with
  every write appended to one list.
\<close>

fun zero_fill_single :: "int list \<Rightarrow> Bin list \<Rightarrow> error + Bin list" where
  "zero_fill_single [] buf = Inr buf"
| "zero_fill_single (j # js) buf =
     (if j < - (2 ^ 63) \<or> 2 ^ 63 \<le> j then Inl OverflowError
      else zero_fill_single js (buf @ [\<lparr>start_t = word_of_int j, count = 0\<rparr>]))"

fun event_loop_single ::
  "32 word \<Rightarrow> bool \<Rightarrow> 64 word list \<Rightarrow> Bin list \<Rightarrow> 64 word \<Rightarrow> 16 word
     \<Rightarrow> error + (Bin list \<times> 64 word \<times> 16 word)" where
  "event_loop_single bin_width include_zeros [] buf bin_start bin_count =
     Inr (buf, bin_start, bin_count)"
| "event_loop_single bin_width include_zeros (t # ts) buf bin_start bin_count =
     (if bin_start + scast bin_width \<le> t then
        (let new_start = (t div scast bin_width) * scast bin_width;
             buf1 = buf @ [\<lparr>start_t = bin_start, count = bin_count\<rparr>]
         in case (if include_zeros
                  then zero_fill_single (py_range (uint (bin_start + scast bin_width))
                                           (uint new_start) (sint bin_width)) buf1
                  else Inr buf1) of
              Inl e \<Rightarrow> Inl e
            | Inr buf2 \<Rightarrow> event_loop_single bin_width include_zeros ts buf2 new_start (0 + 1))
      else event_loop_single bin_width include_zeros ts buf bin_start (bin_count + 1))"

definition bin_photons_single ::
  "64 word list \<Rightarrow> 32 word \<Rightarrow> 64 word \<Rightarrow> 64 word \<Rightarrow> bool \<Rightarrow> error + Bin list" where
  "bin_photons_single times' bin_width start_arg end_arg include_zeros =
     (if start_arg = - 1 \<and> times' = [] then Inl IndexError
      else if bin_width = 0 then Inl ZeroDivisionError
      else
        case event_loop_single bin_width include_zeros times' []
               (first_bin_start times' bin_width start_arg) 0 of
          Inl e \<Rightarrow> Inl e
        | Inr (buf, bin_start, bin_count) \<Rightarrow>
            (if include_zeros \<and> end_arg \<noteq> - 1
             then zero_fill_single (py_range (uint (bin_start + scast bin_width)) (uint end_arg)
                                      (sint bin_width)) buf
             else Inr buf))"

section \<open>Notions the properties are stated with\<close>

text \<open>The sum of the emitted counts, read as natural numbers.\<close>

definition total_count :: "Bin list \<Rightarrow> nat" where
  "total_count bins = sum_list (map (\<lambda>b. unat (count b)) bins)"

text \<open>
  An event \<open>t\<close> lies in the interval \<open>[start_t, start_t + bin_width)\<close> of an entry; the
  interval is taken over the natural numbers, so that it does not wrap.
\<close>

definition in_bin :: "32 word \<Rightarrow> Bin \<Rightarrow> 64 word \<Rightarrow> bool" where
  "in_bin bw b t \<longleftrightarrow> unat (start_t b) \<le> unat t \<and> unat t < unat (start_t b) + nat (sint bw)"

definition events_in_bin :: "32 word \<Rightarrow> Bin \<Rightarrow> 64 word list \<Rightarrow> nat" where
  "events_in_bin bw b ts = length (filter (in_bin bw b) ts)"

definition starts_below :: "64 word \<Rightarrow> Bin list \<Rightarrow> bool" where
  "starts_below e bins \<longleftrightarrow> (\<forall>b\<in>set bins. start_t b < e)"

text \<open>\<open>floor(x / bin_width) * bin_width\<close>, over the natural numbers.\<close>

definition floor_aligned :: "32 word \<Rightarrow> 64 word \<Rightarrow> nat" where
  "floor_aligned bw x = unat x div nat (sint bw) * nat (sint bw)"

definition starts_aligned :: "32 word \<Rightarrow> Bin list \<Rightarrow> bool" where
  "starts_aligned bw bins \<longleftrightarrow> (\<forall>b\<in>set bins. unat (start_t b) mod nat (sint bw) = 0)"

text \<open>
  No 64-bit operation of the function leaves its range: every event and a given
  \<^verbatim>\<open>start_t\<close>, plus \<^verbatim>\<open>bin_width\<close>, stay below \<open>2 ^ 63\<close> (the range of \<^verbatim>\<open>Py_ssize_t j\<close>), and
  a given \<^verbatim>\<open>end_t\<close> is at most \<open>2 ^ 63\<close>.
\<close>

definition no_wrap :: "64 word list \<Rightarrow> 32 word \<Rightarrow> 64 word \<Rightarrow> 64 word \<Rightarrow> bool" where
  "no_wrap times' bw start_arg end_arg \<longleftrightarrow>
     (\<forall>t\<in>set times'. unat t + nat (sint bw) < 2 ^ 63) \<and>
     (start_arg \<noteq> - 1 \<longrightarrow> unat start_arg + nat (sint bw) < 2 ^ 63) \<and>
     (end_arg \<noteq> - 1 \<longrightarrow> unat end_arg \<le> 2 ^ 63)"

section \<open>What a chunked buffer holds\<close>


text \<open>What a buffer holds, and what the source keeps true of \<^verbatim>\<open>chunk\<close> and \<^verbatim>\<open>bin\<close>.\<close>

definition contents :: "buffer \<Rightarrow> Bin list" where
  "contents s = concat (chunks s) @ take (bin s) (chunk s)"

definition buffer_ok :: "buffer \<Rightarrow> bool" where
  "buffer_ok s \<longleftrightarrow> bin s < chunk_sz \<and> length (chunk s) = chunk_sz"

text \<open>Every chunk that was flushed is full.\<close>

definition chunks_full :: "buffer \<Rightarrow> bool" where
  "chunks_full s \<longleftrightarrow> (\<forall>c\<in>set (chunks s). length c = chunk_sz)"

section \<open>An account of the function in natural numbers\<close>

text \<open>
  When no 64-bit operation wraps, the pass computes with the numbers themselves. The
  definitions below follow \<open>event_loop_single\<close> on natural numbers: an entry is a pair of a
  start and the number of events counted for it, not yet reduced to 16 bits. They are used
  in the proofs only; \<open>bin_photons_nat\<close> below relates them to \<open>bin_photons\<close>.
\<close>

definition zero_starts :: "nat \<Rightarrow> nat \<Rightarrow> nat \<Rightarrow> nat list" where
  "zero_starts w a b = map (\<lambda>k. a + k * w) [0 ..< (b - a + w - 1) div w]"

definition zero_bins :: "nat \<Rightarrow> nat \<Rightarrow> nat \<Rightarrow> (nat \<times> nat) list" where
  "zero_bins w a b = map (\<lambda>j. (j, 0)) (zero_starts w a b)"

fun nat_loop ::
  "nat \<Rightarrow> bool \<Rightarrow> nat list \<Rightarrow> (nat \<times> nat) list \<Rightarrow> nat \<Rightarrow> nat \<Rightarrow> (nat \<times> nat) list \<times> nat \<times> nat" where
  "nat_loop w iz [] buf bs bc = (buf, bs, bc)"
| "nat_loop w iz (t # ts) buf bs bc =
     (if bs + w \<le> t
      then nat_loop w iz ts
             (buf @ (bs, bc) # (if iz then zero_bins w (bs + w) (t div w * w) else []))
             (t div w * w) 1
      else nat_loop w iz ts buf bs (Suc bc))"

definition to_bin :: "nat \<times> nat \<Rightarrow> Bin" where
  "to_bin p = \<lparr>start_t = of_nat (fst p), count = of_nat (snd p)\<rparr>"

definition to_state :: "(nat \<times> nat) list \<times> nat \<times> nat \<Rightarrow> Bin list \<times> 64 word \<times> 16 word" where
  "to_state r = (case r of (buf, bs, bc) \<Rightarrow> (map to_bin buf, of_nat bs, of_nat bc))"

definition nat_first_start :: "64 word list \<Rightarrow> nat \<Rightarrow> 64 word \<Rightarrow> nat" where
  "nat_first_start times' w start_arg =
     unat (if start_arg = - 1 then hd times' else start_arg) div w * w"

definition nat_photons ::
  "64 word list \<Rightarrow> 32 word \<Rightarrow> 64 word \<Rightarrow> 64 word \<Rightarrow> bool \<Rightarrow> (nat \<times> nat) list" where
  "nat_photons times' bw start_arg end_arg iz =
     (case nat_loop (nat (sint bw)) iz (map unat times') []
             (nat_first_start times' (nat (sint bw)) start_arg) 0 of
        (buf, bs, bc) \<Rightarrow>
          buf @ (if iz \<and> end_arg \<noteq> - 1 then zero_bins (nat (sint bw)) (bs + nat (sint bw)) (unat end_arg)
                 else []))"

definition nat_ok :: "nat \<Rightarrow> (nat \<times> nat) list \<Rightarrow> nat \<Rightarrow> bool" where
  "nat_ok w buf bs \<longleftrightarrow>
     bs mod w = 0 \<and> sorted_wrt (<) (map fst buf) \<and> (\<forall>p\<in>set buf. fst p mod w = 0 \<and> fst p < bs)"

text \<open>
  \<open>cnt w s xs\<close> is the number of events of \<open>xs\<close> in \<open>[s, s + w)\<close>. \<open>counted\<close> is what the
  pass keeps true after the events \<open>ps\<close>: the current count and the count of every entry
  written so far are the numbers of events of \<open>ps\<close> in their intervals.
\<close>

definition cnt :: "nat \<Rightarrow> nat \<Rightarrow> nat list \<Rightarrow> nat" where
  "cnt w s xs = length (filter (\<lambda>t. s \<le> t \<and> t < s + w) xs)"

definition counted :: "nat \<Rightarrow> nat list \<Rightarrow> (nat \<times> nat) list \<Rightarrow> nat \<Rightarrow> nat \<Rightarrow> bool" where
  "counted w ps buf bs bc \<longleftrightarrow>
     bs mod w = 0 \<and> bc = cnt w bs ps \<and> (\<forall>t\<in>set ps. t < bs + w) \<and>
     (\<forall>p\<in>set buf. fst p mod w = 0 \<and> fst p + w \<le> bs \<and> snd p = cnt w (fst p) ps)"

section \<open>Chunked and single buffer agree\<close>

lemma finish_contents: "finish s = contents s"
  by (simp add: finish_def contents_def)

lemma length_new_chunk: "length new_chunk = chunk_sz"
  by (simp add: new_chunk_def)

lemma chunk_sz_pos: "0 < chunk_sz"
  by (simp add: chunk_sz_def)

lemma init_buffer_ok: "buffer_ok init_buffer"
  by (simp add: buffer_ok_def init_buffer_def length_new_chunk chunk_sz_pos)

lemma contents_init_buffer: "contents init_buffer = []"
  by (simp add: contents_def init_buffer_def)

lemma update_last_slot: "length xs = Suc n \<Longrightarrow> xs[n := b] = take n xs @ [b]"
proof (induction xs arbitrary: n)
  case Nil
  then show ?case by simp
next
  case (Cons x xs)
  then show ?case by (cases n) auto
qed

lemma take_Suc_update: "n < length xs \<Longrightarrow> take (Suc n) (xs[n := b]) = take n xs @ [b]"
  by (simp add: take_Suc_conv_app_nth)

lemma emit_ok: "buffer_ok s \<Longrightarrow> buffer_ok (emit b s)"
  by (auto simp: buffer_ok_def emit_def Let_def length_new_chunk chunk_sz_pos)

lemma contents_emit:
  assumes "buffer_ok s"
  shows "contents (emit b s) = contents s @ [b]"
proof (cases "bin s + 1 = chunk_sz")
  case True
  with assms have "length (chunk s) = Suc (bin s)"
    by (simp add: buffer_ok_def)
  then have "(chunk s)[bin s := b] = take (bin s) (chunk s) @ [b]"
    by (rule update_last_slot)
  with True show ?thesis
    by (simp add: contents_def emit_def Let_def)
next
  case False
  from assms have "bin s < length (chunk s)"
    by (simp add: buffer_ok_def)
  then have "take (Suc (bin s)) ((chunk s)[bin s := b]) = take (bin s) (chunk s) @ [b]"
    by (rule take_Suc_update)
  with False show ?thesis
    by (simp add: contents_def emit_def Let_def)
qed

lemma zero_fill_single_sim:
  "buffer_ok s \<Longrightarrow>
   (case zero_fill js s of
      Inl e \<Rightarrow> zero_fill_single js (contents s) = Inl e
    | Inr s' \<Rightarrow> buffer_ok s' \<and> zero_fill_single js (contents s) = Inr (contents s'))"
proof (induction js arbitrary: s)
  case Nil
  then show ?case by simp
next
  case (Cons j js)
  show ?case
  proof (cases "j < - (2 ^ 63) \<or> 2 ^ 63 \<le> j")
    case True
    then show ?thesis by simp
  next
    case False
    let ?s1 = "emit \<lparr>start_t = word_of_int j, count = 0\<rparr> s"
    have ok: "buffer_ok ?s1"
      using Cons.prems by (rule emit_ok)
    have c: "contents ?s1 = contents s @ [\<lparr>start_t = word_of_int j, count = 0\<rparr>]"
      using Cons.prems by (rule contents_emit)
    from Cons.IH [OF ok] False c show ?thesis
      by (simp split: sum.splits)
  qed
qed

lemma event_loop_single_sim:
  "buffer_ok s \<Longrightarrow>
   (case event_loop bw iz ts s bs bc of
      Inl e \<Rightarrow> event_loop_single bw iz ts (contents s) bs bc = Inl e
    | Inr (s', bs', bc') \<Rightarrow>
        buffer_ok s' \<and> event_loop_single bw iz ts (contents s) bs bc = Inr (contents s', bs', bc'))"
proof (induction ts arbitrary: s bs bc)
  case Nil
  then show ?case by simp
next
  case (Cons t ts)
  show ?case
  proof (cases "bs + scast bw \<le> t")
    case False
    with Cons.IH [OF Cons.prems, of bs "bc + 1"] show ?thesis
      by (simp split: sum.splits prod.splits)
  next
    case True
    let ?ns = "(t div scast bw) * scast bw"
    let ?b = "\<lparr>start_t = bs, count = bc\<rparr>"
    let ?s1 = "emit ?b s"
    have ok1: "buffer_ok ?s1"
      using Cons.prems by (rule emit_ok)
    have c1: "contents ?s1 = contents s @ [?b]"
      using Cons.prems by (rule contents_emit)
    show ?thesis
    proof (cases iz)
      case False
      with True Cons.IH [OF ok1, of ?ns "0 + 1"] c1 show ?thesis
        by (simp add: Let_def split: sum.splits prod.splits)
    next
      case iz: True
      let ?js = "py_range (uint (bs + scast bw)) (uint ?ns) (sint bw)"
      show ?thesis
      proof (cases "zero_fill ?js ?s1")
        case (Inl e)
        with zero_fill_single_sim [OF ok1, of ?js] True iz c1 show ?thesis
          by (simp add: Let_def)
      next
        case (Inr s2)
        with zero_fill_single_sim [OF ok1, of ?js]
        have ok2: "buffer_ok s2"
          and z: "zero_fill_single ?js (contents ?s1) = Inr (contents s2)"
          by simp_all
        from Cons.IH [OF ok2, of ?ns "0 + 1"] True iz c1 z Inr show ?thesis
          by (simp add: Let_def split: sum.splits prod.splits)
      qed
    qed
  qed
qed

lemma bin_photons_eq_single:
  "bin_photons times' bw start_arg end_arg iz = bin_photons_single times' bw start_arg end_arg iz"
proof (cases "(start_arg = - 1 \<and> times' = []) \<or> bw = 0")
  case True
  then show ?thesis
    by (auto simp: bin_photons_def bin_photons_single_def)
next
  case False
  let ?b0 = "first_bin_start times' bw start_arg"
  note sim = event_loop_single_sim [OF init_buffer_ok, of bw iz times' ?b0 0]
  show ?thesis
  proof (cases "event_loop bw iz times' init_buffer ?b0 0")
    case (Inl e)
    with sim False show ?thesis
      by (auto simp: bin_photons_def bin_photons_single_def contents_init_buffer)
  next
    case (Inr r)
    obtain s bs bc where r: "r = (s, bs, bc)"
      by (cases r) auto
    from sim Inr r have ok: "buffer_ok s"
      and e: "event_loop_single bw iz times' [] ?b0 0 = Inr (contents s, bs, bc)"
      by (simp_all add: contents_init_buffer)
    let ?js = "py_range (uint (bs + scast bw)) (uint end_arg) (sint bw)"
    show ?thesis
    proof (cases "iz \<and> end_arg \<noteq> - 1")
      case no: False
      with False Inr r e show ?thesis
        by (auto simp: bin_photons_def bin_photons_single_def finish_contents)
    next
      case yes: True
      show ?thesis
      proof (cases "zero_fill ?js s")
        case (Inl e')
        with zero_fill_single_sim [OF ok, of ?js] False Inr r e yes show ?thesis
          by (auto simp: bin_photons_def bin_photons_single_def)
      next
        case (Inr s')
        with zero_fill_single_sim [OF ok, of ?js] False \<open>event_loop bw iz times' init_buffer ?b0 0 = Inr r\<close>
          r e yes show ?thesis
          by (auto simp: bin_photons_def bin_photons_single_def finish_contents)
      qed
    qed
  qed
qed

section \<open>From machine words to natural numbers\<close>

lemma scast_bin_width:
  assumes "0 < sint (bw :: 32 word)"
  shows "(scast bw :: 64 word) = of_nat (nat (sint bw))"
proof -
  have "(scast bw :: 64 word) = word_of_int (sint bw)"
    by (rule scast_eq)
  also have "\<dots> = of_nat (nat (sint bw))"
    using assms by (simp add: word_of_int_nat)
  finally show ?thesis .
qed

lemma bin_width_bound: "nat (sint (bw :: 32 word)) < 2 ^ 31"
  using sint_lt [of bw] by simp

lemma unat_of_nat64: "x < 2 ^ 64 \<Longrightarrow> unat (of_nat x :: 64 word) = x"
  by (simp add: unat_of_nat)

lemma uint_of_nat64: "x < 2 ^ 64 \<Longrightarrow> uint (of_nat x :: 64 word) = int x"
  by (simp add: uint_nat unat_of_nat)

lemma of_nat_le_iff64: "x < 2 ^ 64 \<Longrightarrow> (of_nat x \<le> (t :: 64 word)) \<longleftrightarrow> x \<le> unat t"
  by (simp add: word_le_nat_alt unat_of_nat)

lemma align_of_nat:
  assumes "w < 2 ^ 64"
  shows "((t :: 64 word) div of_nat w) * of_nat w = of_nat ((unat t div w) * w)"
proof -
  have "unat (of_nat w :: 64 word) = w"
    using assms by (rule unat_of_nat64)
  then have "(t :: 64 word) div of_nat w = of_nat (unat t div w)"
    by (simp add: word_arith_nat_div)
  then show ?thesis by simp
qed

lemma below_ceil_div:
  assumes "0 < w" and "k < (m + w - 1) div w"
  shows "k * w < (m::nat)"
proof -
  from assms(2) have "Suc k \<le> (m + w - 1) div w" by simp
  with assms(1) have "Suc k * w \<le> m + w - 1"
    by (simp add: less_eq_div_iff_mult_less_eq)
  with assms(1) show ?thesis by simp
qed

lemma multiple_le_floor:
  assumes "a mod w = 0" and "a \<le> t"
  shows "a \<le> t div w * (w::nat)"
proof -
  from assms(2) have "a div w \<le> t div w" by (rule div_le_mono)
  then have "a div w * w \<le> t div w * w" by (rule mult_le_mono1)
  with assms(1) show ?thesis by (simp add: mod_eq_0_iff_dvd)
qed

lemma zero_starts_member:
  assumes "0 < w" and "j \<in> set (zero_starts w a b)"
  shows "a \<le> j \<and> j < b \<and> j mod w = a mod w"
proof -
  from assms(2) obtain k where k: "k < (b - a + w - 1) div w" and j: "j = a + k * w"
    by (auto simp: zero_starts_def)
  from below_ceil_div [OF assms(1) k] have "k * w < b - a" .
  with j show ?thesis by auto
qed

lemma sorted_zero_starts: "0 < w \<Longrightarrow> sorted_wrt (<) (zero_starts w a b)"
  unfolding zero_starts_def sorted_wrt_map
  by (rule sorted_wrt_mono_rel [OF _ sorted_wrt_upt]) simp

lemma py_range_zero_starts:
  assumes "0 < w"
  shows "py_range (int a) (int b) (int w) = map int (zero_starts w a b)"
proof -
  have n: "nat ((int b - int a + int w - 1) div int w) = (b - a + w - 1) div w"
  proof (cases "a \<le> b")
    case True
    with assms have "int b - int a + int w - 1 = int (b - a + w - 1)" by simp
    then show ?thesis by (simp only: zdiv_int [symmetric] nat_int)
  next
    case False
    then have "int b - int a + int w - 1 \<le> int w - 1" by simp
    then have "(int b - int a + int w - 1) div int w \<le> (int w - 1) div int w"
      by (rule zdiv_mono1) (use assms in simp)
    also have "(int w - 1) div int w = 0"
      using assms by (simp add: div_pos_pos_trivial)
    finally have "nat ((int b - int a + int w - 1) div int w) = 0" by simp
    moreover from False assms have "(b - a + w - 1) div w = 0" by simp
    ultimately show ?thesis by simp
  qed
  from assms show ?thesis
    by (simp add: py_range_def zero_starts_def n)
qed

lemma zero_fill_single_nat:
  "\<forall>j\<in>set js. j < 2 ^ 63 \<Longrightarrow>
   zero_fill_single (map int js) buf = Inr (buf @ map (\<lambda>j. to_bin (j, 0)) js)"
proof (induction js arbitrary: buf)
  case Nil
  then show ?case by simp
next
  case (Cons j js)
  then have "int j < 2 ^ 63"
    by (metis list.set_intros(1) of_nat_less_numeral_power_cancel_iff)
  with Cons show ?case
    by (simp add: to_bin_def)
qed

lemma zero_fill_single_range:
  assumes "0 < w" and "b \<le> 2 ^ 63"
  shows "zero_fill_single (py_range (int a) (int b) (int w)) (map to_bin buf) =
         Inr (map to_bin (buf @ zero_bins w a b))"
proof -
  have "\<forall>j\<in>set (zero_starts w a b). j < 2 ^ 63"
    using zero_starts_member [OF assms(1)] assms(2) by fastforce
  then show ?thesis
    by (simp add: py_range_zero_starts [OF assms(1)] zero_fill_single_nat zero_bins_def comp_def)
qed

lemma floor_multiple_le: "t div w * w \<le> (t::nat)"
  by simp

lemma floor_multiple_bound: "t + w < B \<Longrightarrow> t div w * w + w < (B::nat)"
  by (rule le_less_trans [OF add_right_mono [OF floor_multiple_le]])

lemma nat_loop_start_bound:
  "bs + w < B \<Longrightarrow> \<forall>t\<in>set ts. t + w < B \<Longrightarrow> nat_loop w iz ts buf bs bc = (buf', bs', bc')
   \<Longrightarrow> bs' + w < B"
proof (induction ts arbitrary: buf bs bc)
  case Nil
  then show ?case by simp
next
  case (Cons t ts)
  have "t div w * w + w < B"
    using Cons.prems(2) by (simp add: floor_multiple_bound)
  with Cons show ?case
    by (auto split: if_splits)
qed

lemma event_loop_single_step:
  fixes bw :: "32 word" and t :: "64 word"
  assumes bw: "0 < sint bw" and w: "w = nat (sint bw)"
    and bs: "bs + w < 2 ^ 63" and t: "unat t + w < 2 ^ 63"
  shows "event_loop_single bw iz (t # ts) (map to_bin buf) (of_nat bs) (of_nat bc) =
           (if bs + w \<le> unat t
            then event_loop_single bw iz ts
                   (map to_bin (buf @ (bs, bc) # (if iz then zero_bins w (bs + w) (unat t div w * w) else [])))
                   (of_nat (unat t div w * w)) (of_nat 1)
            else event_loop_single bw iz ts (map to_bin buf) (of_nat bs) (of_nat (Suc bc)))"
proof -
  let ?ns = "unat t div w * w"
  have w0: "0 < w" using bw w by simp
  have sc: "(scast bw :: 64 word) = of_nat w"
    unfolding w using bw by (rule scast_bin_width)
  have si: "sint bw = int w"
    using bw w by simp
  have bsw: "bs + w < 2 ^ 64"
    using bs by simp
  have cond: "(of_nat bs + scast bw \<le> t) \<longleftrightarrow> bs + w \<le> unat t"
    using of_nat_le_iff64 [OF bsw, of t] by (simp add: sc)
  have ns: "(t div scast bw) * scast bw = of_nat ?ns"
    unfolding sc by (rule align_of_nat) (use bin_width_bound [of bw] w in simp)
  have ns_bound: "?ns + w < 2 ^ 63"
    using t by (rule floor_multiple_bound)
  show ?thesis
  proof (cases "bs + w \<le> unat t")
    case False
    with cond show ?thesis
      by (simp add: add.commute)
  next
    case True
    let ?buf1 = "buf @ [(bs, bc)]"
    have a: "uint (of_nat bs + scast bw :: 64 word) = int (bs + w)"
      using uint_of_nat64 [OF bsw] by (simp add: sc)
    have b: "uint (of_nat ?ns :: 64 word) = int ?ns"
      by (rule uint_of_nat64) (use ns_bound in simp)
    have z: "zero_fill_single (py_range (uint (of_nat bs + scast bw :: 64 word)) (uint (of_nat ?ns :: 64 word)) (sint bw))
               (map to_bin ?buf1) = Inr (map to_bin (?buf1 @ zero_bins w (bs + w) ?ns))"
      unfolding a b si by (rule zero_fill_single_range [OF w0]) (use ns_bound in simp)
    have b1: "map to_bin buf @ [\<lparr>start_t = of_nat bs, count = of_nat bc\<rparr>] = map to_bin ?buf1"
      by (simp add: to_bin_def)
    from True cond have c: "of_nat bs + scast bw \<le> t" by simp
    show ?thesis
    proof (cases iz)
      case True
      with c \<open>bs + w \<le> unat t\<close> z show ?thesis
        by (simp add: ns Let_def b1 del: map_append)
    next
      case False
      with c \<open>bs + w \<le> unat t\<close> show ?thesis
        by (simp add: ns Let_def b1 del: map_append)
    qed
  qed
qed

lemma event_loop_single_nat:
  fixes bw :: "32 word"
  assumes bw: "0 < sint bw" and w: "w = nat (sint bw)"
  shows "bs + w < 2 ^ 63 \<Longrightarrow> \<forall>t\<in>set ts. unat t + w < 2 ^ 63 \<Longrightarrow>
         event_loop_single bw iz ts (map to_bin buf) (of_nat bs) (of_nat bc) =
           Inr (to_state (nat_loop w iz (map unat ts) buf bs bc))"
proof (induction ts arbitrary: buf bs bc)
  case Nil
  then show ?case by (simp add: to_state_def)
next
  case (Cons t ts)
  have t: "unat t + w < 2 ^ 63" and rest: "\<forall>t\<in>set ts. unat t + w < 2 ^ 63"
    using Cons.prems(2) by simp_all
  have ns_bound: "unat t div w * w + w < 2 ^ 63"
    using t by (rule floor_multiple_bound)
  note step = event_loop_single_step [OF bw w Cons.prems(1) t]
  show ?case
  proof (cases "bs + w \<le> unat t")
    case False
    with Cons.IH [OF Cons.prems(1) rest, of buf "Suc bc"] show ?thesis
      unfolding step by simp
  next
    case True
    with Cons.IH [OF ns_bound rest,
        of "buf @ (bs, bc) # (if iz then zero_bins w (bs + w) (unat t div w * w) else [])" 1]
    show ?thesis
      unfolding step by (simp del: map_append)
  qed
qed

lemma first_bin_start_nat:
  assumes "0 < sint bw"
  shows "first_bin_start times' bw start_arg = of_nat (nat_first_start times' (nat (sint bw)) start_arg)"
  unfolding first_bin_start_def nat_first_start_def scast_bin_width [OF assms]
  by (rule align_of_nat) (use bin_width_bound [of bw] in simp)

lemma nat_first_start_bound:
  assumes "no_wrap times' bw start_arg end_arg" and "start_arg = - 1 \<longrightarrow> times' \<noteq> []"
  shows "nat_first_start times' (nat (sint bw)) start_arg + nat (sint bw) < 2 ^ 63"
proof -
  let ?x = "if start_arg = - 1 then hd times' else start_arg"
  have "unat ?x + nat (sint bw) < 2 ^ 63"
    using assms by (auto simp: no_wrap_def)
  then show ?thesis
    unfolding nat_first_start_def by (rule floor_multiple_bound)
qed

lemma bin_photons_nat:
  assumes bw: "0 < sint bw"
    and nw: "no_wrap times' bw start_arg end_arg"
    and ne: "start_arg = - 1 \<longrightarrow> times' \<noteq> []"
  shows "bin_photons times' bw start_arg end_arg iz =
           Inr (map to_bin (nat_photons times' bw start_arg end_arg iz))"
proof -
  define w where "w = nat (sint bw)"
  define b0 where "b0 = nat_first_start times' w start_arg"
  obtain buf bs bc where r: "nat_loop w iz (map unat times') [] b0 0 = (buf, bs, bc)"
    by (cases "nat_loop w iz (map unat times') [] b0 0") auto
  have w0: "0 < w" using bw w_def by simp
  have b0: "b0 + w < 2 ^ 63"
    unfolding b0_def w_def using nw ne by (rule nat_first_start_bound)
  have ts: "\<forall>t\<in>set times'. unat t + w < 2 ^ 63"
    using nw by (simp add: no_wrap_def w_def)
  have fb: "first_bin_start times' bw start_arg = of_nat b0"
    unfolding b0_def w_def using bw by (rule first_bin_start_nat)
  have loop: "event_loop_single bw iz times' [] (first_bin_start times' bw start_arg) 0 =
                Inr (map to_bin buf, of_nat bs, of_nat bc)"
    using event_loop_single_nat [OF bw w_def b0 ts, of iz "[]" 0]
    by (simp add: fb r to_state_def)
  have np: "nat_photons times' bw start_arg end_arg iz =
              buf @ (if iz \<and> end_arg \<noteq> - 1 then zero_bins w (bs + w) (unat end_arg) else [])"
    using r by (simp add: nat_photons_def w_def [symmetric] b0_def [symmetric])
  have "bs + w < 2 ^ 63"
    using b0 _ r by (rule nat_loop_start_bound) (use ts in simp)
  then have a: "uint (of_nat bs + scast bw :: 64 word) = int (bs + w)"
    using uint_of_nat64 [of "bs + w"] by (simp add: scast_bin_width [OF bw] w_def)
  have si: "sint bw = int w"
    using bw w_def by simp
  have bw0: "bw \<noteq> 0"
    using bw by auto
  show ?thesis
  proof (cases "iz \<and> end_arg \<noteq> - 1")
    case False
    with ne bw0 loop show ?thesis
      unfolding np by (auto simp: bin_photons_eq_single bin_photons_single_def)
  next
    case True
    with nw have e: "unat end_arg \<le> 2 ^ 63"
      by (simp add: no_wrap_def)
    have "zero_fill_single (py_range (uint (of_nat bs + scast bw :: 64 word)) (uint end_arg) (sint bw))
            (map to_bin buf) = Inr (map to_bin (buf @ zero_bins w (bs + w) (unat end_arg)))"
      unfolding a si uint_nat [of end_arg] by (rule zero_fill_single_range [OF w0 e])
    with True ne bw0 loop show ?thesis
      unfolding np by (auto simp: bin_photons_eq_single bin_photons_single_def)
  qed
qed

section \<open>Order and alignment of the emitted starts\<close>

lemma map_fst_zero_bins: "map fst (zero_bins w a b) = zero_starts w a b"
  by (simp add: zero_bins_def comp_def)

lemma set_zero_bins: "p \<in> set (zero_bins w a b) \<longleftrightarrow> snd p = 0 \<and> fst p \<in> set (zero_starts w a b)"
  by (cases p) (auto simp: zero_bins_def)

lemma sorted_wrt_starts_append:
  assumes "sorted_wrt (<) (map fst buf)" and "\<forall>p\<in>set buf. fst p < (bs::nat)"
    and "sorted_wrt (<) zs" and "\<forall>j\<in>set zs. bs \<le> j"
  shows "sorted_wrt (<) (map fst buf @ zs)"
proof -
  have "x < y" if "x \<in> set (map fst buf)" and "y \<in> set zs" for x y
  proof -
    from that(1) assms(2) have "x < bs" by auto
    moreover from that(2) assms(4) have "bs \<le> y" by auto
    ultimately show ?thesis by simp
  qed
  with assms(1,3) show ?thesis
    by (simp add: sorted_wrt_append)
qed

lemma nat_ok_zero_bins:
  assumes w: "0 < w" and ok: "nat_ok w buf bs" and le: "bs + w \<le> e"
  shows "sorted_wrt (<) (map fst (buf @ (bs, bc) # zero_bins w (bs + w) e))"
    and "\<forall>p\<in>set (buf @ (bs, bc) # zero_bins w (bs + w) e). fst p mod w = 0 \<and> fst p < e"
proof -
  have z: "\<forall>j\<in>set (zero_starts w (bs + w) e). bs + w \<le> j \<and> j < e \<and> j mod w = 0"
    using zero_starts_member [OF w, of _ "bs + w" e] ok by (auto simp: nat_ok_def)
  have "sorted_wrt (<) (map fst buf @ (bs # zero_starts w (bs + w) e))"
  proof (rule sorted_wrt_starts_append)
    show "sorted_wrt (<) (bs # zero_starts w (bs + w) e)"
      using z w sorted_zero_starts [OF w, of "bs + w" e] by auto
  qed (use ok z in \<open>auto simp: nat_ok_def\<close>)
  then show "sorted_wrt (<) (map fst (buf @ (bs, bc) # zero_bins w (bs + w) e))"
    by (simp only: map_append list.map fst_conv map_fst_zero_bins)
  show "\<forall>p\<in>set (buf @ (bs, bc) # zero_bins w (bs + w) e). fst p mod w = 0 \<and> fst p < e"
  proof
    fix p
    assume "p \<in> set (buf @ (bs, bc) # zero_bins w (bs + w) e)"
    then consider "p \<in> set buf" | "p = (bs, bc)" | "p \<in> set (zero_bins w (bs + w) e)"
      by auto
    then show "fst p mod w = 0 \<and> fst p < e"
    proof cases
      case 1
      with ok have "fst p mod w = 0" and "fst p < bs"
        by (simp_all add: nat_ok_def)
      with le show ?thesis by simp
    next
      case 2
      with ok le w show ?thesis
        by (simp add: nat_ok_def)
    next
      case 3
      with z show ?thesis
        by (simp add: set_zero_bins)
    qed
  qed
qed

lemma nat_ok_step:
  assumes w: "0 < w" and ok: "nat_ok w buf bs" and le: "bs + w \<le> t"
  shows "nat_ok w (buf @ (bs, bc) # (if iz then zero_bins w (bs + w) (t div w * w) else []))
           (t div w * w)"
proof -
  from ok have "(bs + w) mod w = 0" by (simp add: nat_ok_def)
  then have e: "bs + w \<le> t div w * w"
    using le by (rule multiple_le_floor)
  show ?thesis
  proof (cases iz)
    case True
    with nat_ok_zero_bins [OF w ok e, of bc] show ?thesis
      by (simp add: nat_ok_def)
  next
    case False
    with ok e w show ?thesis
      by (fastforce simp: nat_ok_def sorted_wrt_append)
  qed
qed

lemma nat_loop_ok:
  "0 < w \<Longrightarrow> nat_ok w buf bs \<Longrightarrow> nat_loop w iz ts buf bs bc = (buf', bs', bc') \<Longrightarrow> nat_ok w buf' bs'"
proof (induction ts arbitrary: buf bs bc)
  case Nil
  then show ?case by simp
next
  case (Cons t ts)
  show ?case
  proof (cases "bs + w \<le> t")
    case True
    from Cons.prems(1,2) True have "nat_ok w (buf @ (bs, bc) # (if iz then zero_bins w (bs + w) (t div w * w) else [])) (t div w * w)"
      by (rule nat_ok_step)
    from Cons.IH [OF Cons.prems(1) this] Cons.prems(3) True show ?thesis
      by simp
  next
    case False
    with Cons show ?thesis by simp
  qed
qed

lemma nat_first_start_aligned: "nat_first_start times' w start_arg mod w = 0"
  by (simp add: nat_first_start_def)

lemma nat_photons_structure:
  assumes w: "0 < sint bw"
  shows "sorted_wrt (<) (map fst (nat_photons times' bw start_arg end_arg iz))"
    and "\<forall>p\<in>set (nat_photons times' bw start_arg end_arg iz). fst p mod nat (sint bw) = 0"
proof -
  define w where "w = nat (sint bw)"
  define b0 where "b0 = nat_first_start times' w start_arg"
  obtain buf bs bc where r: "nat_loop w iz (map unat times') [] b0 0 = (buf, bs, bc)"
    by (cases "nat_loop w iz (map unat times') [] b0 0") auto
  have w0: "0 < w" using assms w_def by simp
  have np: "nat_photons times' bw start_arg end_arg iz =
              buf @ (if iz \<and> end_arg \<noteq> - 1 then zero_bins w (bs + w) (unat end_arg) else [])"
    using r by (simp add: nat_photons_def w_def [symmetric] b0_def [symmetric])
  have "nat_ok w [] b0"
    by (simp add: nat_ok_def b0_def nat_first_start_aligned)
  with w0 have ok: "nat_ok w buf bs"
    using r by (rule nat_loop_ok)
  have z: "\<forall>j\<in>set (zero_starts w (bs + w) (unat end_arg)). bs + w \<le> j \<and> j mod w = 0"
    using zero_starts_member [OF w0, of _ "bs + w" "unat end_arg"] ok by (auto simp: nat_ok_def)
  have "sorted_wrt (<) (map fst buf @ zero_starts w (bs + w) (unat end_arg))"
  proof (rule sorted_wrt_starts_append)
    show "sorted_wrt (<) (zero_starts w (bs + w) (unat end_arg))"
      using w0 by (rule sorted_zero_starts)
  qed (use ok z in \<open>auto simp: nat_ok_def\<close>)
  with ok show "sorted_wrt (<) (map fst (nat_photons times' bw start_arg end_arg iz))"
    unfolding np by (simp add: map_fst_zero_bins nat_ok_def)
  show "\<forall>p\<in>set (nat_photons times' bw start_arg end_arg iz). fst p mod nat (sint bw) = 0"
    unfolding np w_def [symmetric] using ok z
    by (fastforce simp: nat_ok_def set_zero_bins)
qed

lemma start_t_to_bin: "start_t (to_bin p) = of_nat (fst p)"
  by (simp add: to_bin_def)

lemma count_to_bin: "count (to_bin p) = of_nat (snd p)"
  by (simp add: to_bin_def)

lemma nat_photons_eq:
  "nat_loop (nat (sint bw)) iz (map unat times') []
     (nat_first_start times' (nat (sint bw)) start_arg) 0 = (buf, bs, bc) \<Longrightarrow>
   nat_photons times' bw start_arg end_arg iz =
     buf @ (if iz \<and> end_arg \<noteq> - 1
            then zero_bins (nat (sint bw)) (bs + nat (sint bw)) (unat end_arg) else [])"
  by (simp add: nat_photons_def)

lemma nat_photons_start_bound:
  assumes bw: "0 < sint bw"
    and nw: "no_wrap times' bw start_arg end_arg"
    and ne: "start_arg = - 1 \<longrightarrow> times' \<noteq> []"
    and p: "p \<in> set (nat_photons times' bw start_arg end_arg iz)"
  shows "fst p < 2 ^ 64"
proof -
  define w where "w = nat (sint bw)"
  define b0 where "b0 = nat_first_start times' w start_arg"
  obtain buf bs bc where r: "nat_loop w iz (map unat times') [] b0 0 = (buf, bs, bc)"
    by (cases "nat_loop w iz (map unat times') [] b0 0") auto
  have w0: "0 < w" using bw w_def by simp
  note np = nat_photons_eq [OF r [unfolded w_def b0_def], of end_arg, folded w_def]
  have b0: "b0 + w < 2 ^ 63"
    unfolding b0_def w_def using nw ne by (rule nat_first_start_bound)
  have ts: "\<forall>t\<in>set (map unat times'). t + w < 2 ^ 63"
    using nw by (simp add: no_wrap_def w_def)
  have bs: "bs + w < 2 ^ 63"
    using b0 ts r by (rule nat_loop_start_bound)
  have "nat_ok w [] b0"
    by (simp add: nat_ok_def b0_def nat_first_start_aligned)
  with w0 have ok: "nat_ok w buf bs"
    using r by (rule nat_loop_ok)
  from p consider "p \<in> set buf" | "p \<in> set (zero_bins w (bs + w) (unat end_arg))"
    unfolding np by (auto split: if_splits)
  then show ?thesis
  proof cases
    case 1
    with ok have "fst p < bs" by (simp add: nat_ok_def)
    with bs show ?thesis by simp
  next
    case 2
    then have "fst p < unat end_arg"
      using zero_starts_member [OF w0, of "fst p" "bs + w" "unat end_arg"] by (simp add: set_zero_bins)
    moreover have "unat end_arg < 2 ^ 64"
      using unsigned_less [of end_arg, where 'a = nat] by simp
    ultimately show ?thesis by simp
  qed
qed

lemma starts_of_nat_photons:
  assumes bw: "0 < sint bw"
    and nw: "no_wrap times' bw start_arg end_arg"
    and ne: "start_arg = - 1 \<longrightarrow> times' \<noteq> []"
  shows "sorted_wrt (<) (map start_t (map to_bin (nat_photons times' bw start_arg end_arg iz)))"
    and "starts_aligned bw (map to_bin (nat_photons times' bw start_arg end_arg iz))"
proof -
  let ?nb = "nat_photons times' bw start_arg end_arg iz"
  have bound: "fst p < 2 ^ 64" if "p \<in> set ?nb" for p
    using bw nw ne that by (rule nat_photons_start_bound)
  have u: "unat (of_nat (fst p) :: 64 word) = fst p" if "p \<in> set ?nb" for p
    using bound [OF that] by (rule unat_of_nat64)
  have "sorted_wrt (\<lambda>x y. fst x < fst y) ?nb"
    using nat_photons_structure(1) [OF bw, of times' start_arg end_arg iz]
    by (simp add: sorted_wrt_map)
  then have "sorted_wrt (\<lambda>x y. (of_nat (fst x) :: 64 word) < of_nat (fst y)) ?nb"
    by (rule sorted_wrt_mono_rel [rotated]) (simp add: word_less_nat_alt u)
  then show "sorted_wrt (<) (map start_t (map to_bin ?nb))"
    by (simp add: sorted_wrt_map start_t_to_bin)
  show "starts_aligned bw (map to_bin ?nb)"
    using nat_photons_structure(2) [OF bw, of times' start_arg end_arg iz]
    by (simp add: starts_aligned_def start_t_to_bin u)
qed

lemmas eval_defs =
  bin_photons_eq_single bin_photons_single_def first_bin_start_def py_range_def upt_rec

section \<open>Emission order\<close>

text \<open>
  C8 (emission-order invariant), as the claim states it, fails where the 64-bit sum
  \<^verbatim>\<open>bin_start + bin_width\<close> wraps around: for the sorted events \<open>2^64 - 6\<close> and \<open>2^64 - 5\<close>
  and \<^verbatim>\<open>bin_width = 10\<close> the first bin starts at \<open>2^64 - 6\<close>, its end wraps to 4, so every
  event lies "beyond" the bin and the same start is written twice.
\<close>

theorem emission_order_counterexample:
  "sorted [18446744073709551610, 18446744073709551611 :: 64 word] \<and>
   0 < sint (10 :: 32 word) \<and>
   bin_photons [18446744073709551610, 18446744073709551611] 10 (- 1) (- 1) False =
     Inr [\<lparr>start_t = 18446744073709551610, count = 0\<rparr>,
          \<lparr>start_t = 18446744073709551610, count = 1\<rparr>] \<and>
   \<not> sorted_wrt (<) (map start_t [\<lparr>start_t = 18446744073709551610, count = 0\<rparr>,
                                   \<lparr>start_t = 18446744073709551610, count = 1\<rparr>]) \<and>
   \<not> distinct (map start_t [\<lparr>start_t = 18446744073709551610, count = 0\<rparr>,
                            \<lparr>start_t = 18446744073709551610, count = 1\<rparr>])"
  by (simp add: eval_defs)

text \<open>
  C8, amended. For every sorted \<^verbatim>\<open>times\<close> and \<^verbatim>\<open>bin_width > 0\<close>, with a non-empty \<^verbatim>\<open>times\<close>
  or a given \<^verbatim>\<open>start_t\<close> (a multiple of \<^verbatim>\<open>bin_width\<close> when given), and provided no 64-bit
  operation wraps (\<open>no_wrap\<close>: every event and a given \<^verbatim>\<open>start_t\<close>, plus \<^verbatim>\<open>bin_width\<close>, stay
  below \<open>2^63\<close>, a given \<^verbatim>\<open>end_t\<close> is at most \<open>2^63\<close>), the function returns, and the emitted
  \<^verbatim>\<open>start_t\<close> values are strictly increasing, pairwise distinct, and each is an exact
  multiple of \<^verbatim>\<open>bin_width\<close>.
\<close>

theorem emitted_starts_increasing_aligned:
  assumes "sorted times'"
    and "0 < sint bin_width"
    and "no_wrap times' bin_width start_arg end_arg"
    and "times' \<noteq> [] \<or> start_arg \<noteq> - 1"
    and "start_arg \<noteq> - 1 \<longrightarrow> unat start_arg mod nat (sint bin_width) = 0"
  shows "\<exists>bins. bin_photons times' bin_width start_arg end_arg include_zeros = Inr bins \<and>
           sorted_wrt (<) (map start_t bins) \<and> distinct (map start_t bins) \<and>
           starts_aligned bin_width bins"
proof -
  let ?bins = "map to_bin (nat_photons times' bin_width start_arg end_arg include_zeros)"
  from assms(4) have ne: "start_arg = - 1 \<longrightarrow> times' \<noteq> []" by auto
  have "bin_photons times' bin_width start_arg end_arg include_zeros = Inr ?bins"
    using assms(2,3) ne by (rule bin_photons_nat)
  moreover have s: "sorted_wrt (<) (map start_t ?bins)"
    using assms(2,3) ne by (rule starts_of_nat_photons(1))
  moreover from s have "distinct (map start_t ?bins)"
    by (simp add: strict_sorted_iff)
  moreover have "starts_aligned bin_width ?bins"
    using assms(2,3) ne by (rule starts_of_nat_photons(2))
  ultimately show ?thesis by blast
qed

theorem emitted_starts_increasing_aligned_witness:
  "sorted [0, 7, 12, 31 :: 64 word] \<and> 0 < sint (5 :: 32 word) \<and>
   no_wrap [0, 7, 12, 31] 5 0 50 \<and> [0, 7, 12, 31 :: 64 word] \<noteq> [] \<and>
   unat (0 :: 64 word) mod nat (sint (5 :: 32 word)) = 0 \<and>
   (\<exists>bins. bin_photons [0, 7, 12, 31] 5 0 50 True = Inr bins \<and>
      sorted_wrt (<) (map start_t bins) \<and> distinct (map start_t bins) \<and>
      starts_aligned 5 bins)"
proof -
  have h: "sorted [0, 7, 12, 31 :: 64 word]" "0 < sint (5 :: 32 word)"
    "no_wrap [0, 7, 12, 31] 5 0 50" "[0, 7, 12, 31 :: 64 word] \<noteq> [] \<or> (0 :: 64 word) \<noteq> - 1"
    "(0 :: 64 word) \<noteq> - 1 \<longrightarrow> unat (0 :: 64 word) mod nat (sint (5 :: 32 word)) = 0"
    by (simp_all add: no_wrap_def)
  from emitted_starts_increasing_aligned [OF h, of True] h show ?thesis
    by simp
qed

section \<open>The given range\<close>

lemma nat_loop_below:
  "0 < w \<Longrightarrow> \<forall>p\<in>set buf. fst p < E \<Longrightarrow> \<forall>t\<in>set ts. t < E \<Longrightarrow>
   nat_loop w iz ts buf bs bc = (buf', bs', bc') \<Longrightarrow> \<forall>p\<in>set buf'. fst p < E"
proof (induction ts arbitrary: buf bs bc)
  case Nil
  then show ?case by simp
next
  case (Cons t ts)
  show ?case
  proof (cases "bs + w \<le> t")
    case False
    with Cons show ?thesis by simp
  next
    case True
    let ?ns = "t div w * w"
    let ?zs = "if iz then zero_bins w (bs + w) ?ns else []"
    from Cons.prems(3) have t: "t < E" by simp
    have "fst p < E" if "p \<in> set (buf @ (bs, bc) # ?zs)" for p
    proof -
      from that consider "p \<in> set buf" | "p = (bs, bc)" | "p \<in> set ?zs" by auto
      then show ?thesis
      proof cases
        case 1
        with Cons.prems(2) show ?thesis by simp
      next
        case 2
        with True t show ?thesis by simp
      next
        case 3
        then have "fst p \<in> set (zero_starts w (bs + w) ?ns)"
          by (simp add: set_zero_bins split: if_splits)
        with zero_starts_member [OF Cons.prems(1)] have "fst p < ?ns" by blast
        also have "?ns \<le> t" by (rule floor_multiple_le)
        finally show ?thesis using t by simp
      qed
    qed
    then have "\<forall>p\<in>set (buf @ (bs, bc) # ?zs). fst p < E" by blast
    from Cons.IH [OF Cons.prems(1) this, of ?ns 1 ] Cons.prems(3,4) True show ?thesis
      by simp
  qed
qed

lemma nat_photons_below:
  assumes bw: "0 < sint bw" and ts: "\<forall>t\<in>set times'. unat t < unat end_arg"
    and p: "p \<in> set (nat_photons times' bw start_arg end_arg iz)"
  shows "fst p < unat end_arg"
proof -
  define w where "w = nat (sint bw)"
  define b0 where "b0 = nat_first_start times' w start_arg"
  obtain buf bs bc where r: "nat_loop w iz (map unat times') [] b0 0 = (buf, bs, bc)"
    by (cases "nat_loop w iz (map unat times') [] b0 0") auto
  have w0: "0 < w" using bw w_def by simp
  note np = nat_photons_eq [OF r [unfolded w_def b0_def], of end_arg, folded w_def]
  have b: "\<forall>p\<in>set buf. fst p < unat end_arg"
    using w0 _ _ r by (rule nat_loop_below) (use ts in simp_all)
  have z: "fst q < unat end_arg" if "q \<in> set (zero_bins w (bs + w) (unat end_arg))" for q
    using that zero_starts_member [OF w0, of "fst q" "bs + w" "unat end_arg"]
    by (simp add: set_zero_bins)
  from p consider "p \<in> set buf" | "p \<in> set (zero_bins w (bs + w) (unat end_arg))"
    unfolding np by (auto split: if_splits)
  then show ?thesis
  proof cases
    case 1
    with b show ?thesis by blast
  next
    case 2
    then show ?thesis by (rule z)
  qed
qed

text \<open>
  C3 (range truncation), as the claim states it, fails: \<^verbatim>\<open>end_t\<close> is read only by the loop
  that appends zero-count bins after the pass; the pass itself never compares an event or a
  start with it. For \<^verbatim>\<open>times = [0, 20]\<close>, \<^verbatim>\<open>bin_width = 5\<close>, \<^verbatim>\<open>end_t = 10\<close> the entries
  \<^verbatim>\<open>(10,0)\<close> and \<^verbatim>\<open>(15,0)\<close> are emitted, at and beyond \<^verbatim>\<open>end_t\<close>.
\<close>

theorem range_truncation_counterexample:
  "sorted [0, 20 :: 64 word] \<and> 0 < sint (5 :: 32 word) \<and>
   bin_photons [0, 20] 5 (- 1) 10 True =
     Inr [\<lparr>start_t = 0, count = 1\<rparr>, \<lparr>start_t = 5, count = 0\<rparr>,
          \<lparr>start_t = 10, count = 0\<rparr>, \<lparr>start_t = 15, count = 0\<rparr>] \<and>
   \<not> starts_below 10 [\<lparr>start_t = 0, count = 1\<rparr>, \<lparr>start_t = 5, count = 0\<rparr>,
          \<lparr>start_t = 10, count = 0\<rparr>, \<lparr>start_t = 15, count = 0\<rparr>]"
  by (simp add: eval_defs starts_below_def)

text \<open>
  C3, amended. A given \<^verbatim>\<open>end_t\<close> bounds the zero-count bins appended after the pass and
  nothing else: events at or beyond \<^verbatim>\<open>end_t\<close> are binned like all others. When every event
  lies below the given \<^verbatim>\<open>end_t\<close> (for a sorted \<^verbatim>\<open>times\<close>, \<^verbatim>\<open>bin_width > 0\<close>, a non-empty
  \<^verbatim>\<open>times\<close> or a given \<^verbatim>\<open>start_t\<close>, and no 64-bit operation wrapping), the function returns
  and every emitted entry has \<^verbatim>\<open>start_t\<close> strictly below \<^verbatim>\<open>end_t\<close>.
\<close>

theorem starts_below_end_when_events_below:
  assumes "sorted times'"
    and "0 < sint bin_width"
    and "no_wrap times' bin_width start_arg end_arg"
    and "times' \<noteq> [] \<or> start_arg \<noteq> - 1"
    and "end_arg \<noteq> - 1"
    and "\<forall>t\<in>set times'. t < end_arg"
  shows "\<exists>bins. bin_photons times' bin_width start_arg end_arg include_zeros = Inr bins \<and>
           starts_below end_arg bins"
proof -
  let ?nb = "nat_photons times' bin_width start_arg end_arg include_zeros"
  from assms(4) have ne: "start_arg = - 1 \<longrightarrow> times' \<noteq> []" by auto
  have run: "bin_photons times' bin_width start_arg end_arg include_zeros = Inr (map to_bin ?nb)"
    using assms(2,3) ne by (rule bin_photons_nat)
  have ts: "\<forall>t\<in>set times'. unat t < unat end_arg"
    using assms(6) by (simp add: word_less_nat_alt)
  have "start_t (to_bin p) < end_arg" if p: "p \<in> set ?nb" for p
  proof -
    have "fst p < unat end_arg"
      using assms(2) ts p by (rule nat_photons_below)
    moreover have "unat (of_nat (fst p) :: 64 word) = fst p"
      by (rule unat_of_nat64) (rule nat_photons_start_bound [OF assms(2,3) ne p])
    ultimately show ?thesis
      by (simp add: start_t_to_bin word_less_nat_alt)
  qed
  then have "starts_below end_arg (map to_bin ?nb)"
    by (simp add: starts_below_def)
  with run show ?thesis by blast
qed

theorem starts_below_end_when_events_below_witness:
  "sorted [0, 7, 12 :: 64 word] \<and> 0 < sint (5 :: 32 word) \<and>
   no_wrap [0, 7, 12] 5 (- 1) 30 \<and> [0, 7, 12 :: 64 word] \<noteq> [] \<and> (30 :: 64 word) \<noteq> - 1 \<and>
   list_all (\<lambda>t. t < 30) [0, 7, 12 :: 64 word] \<and>
   (\<exists>bins. bin_photons [0, 7, 12] 5 (- 1) 30 True = Inr bins \<and> starts_below 30 bins)"
proof -
  have h: "sorted [0, 7, 12 :: 64 word]" "0 < sint (5 :: 32 word)"
    "no_wrap [0, 7, 12] 5 (- 1) 30" "[0, 7, 12 :: 64 word] \<noteq> [] \<or> (- 1 :: 64 word) \<noteq> - 1"
    "(30 :: 64 word) \<noteq> - 1" "\<forall>t\<in>set [0, 7, 12 :: 64 word]. t < 30"
    by (simp_all add: no_wrap_def)
  from starts_below_end_when_events_below [OF h, of True] h show ?thesis
    by simp
qed

section \<open>The first bin\<close>

lemma nat_loop_extends: "\<exists>ext. fst (nat_loop w iz ts buf bs bc) = buf @ ext"
proof (induction ts arbitrary: buf bs bc)
  case Nil
  then show ?case by simp
next
  case (Cons t ts)
  show ?case
  proof (cases "bs + w \<le> t")
    case False
    with Cons.IH [of buf bs "Suc bc"] show ?thesis by simp
  next
    case True
    let ?zs = "if iz then zero_bins w (bs + w) (t div w * w) else []"
    from Cons.IH [of "buf @ (bs, bc) # ?zs" "t div w * w" 1]
    obtain ext where "fst (nat_loop w iz ts (buf @ (bs, bc) # ?zs) (t div w * w) 1) =
        (buf @ (bs, bc) # ?zs) @ ext" by blast
    with True have "fst (nat_loop w iz (t # ts) buf bs bc) = buf @ ((bs, bc) # ?zs @ ext)"
      by simp
    then show ?thesis by blast
  qed
qed

lemma nat_loop_first:
  "\<exists>t\<in>set ts. bs + w \<le> t \<Longrightarrow> \<exists>c rest. fst (nat_loop w iz ts [] bs bc) = (bs, c) # rest"
proof (induction ts arbitrary: bc)
  case Nil
  then show ?case by simp
next
  case (Cons t ts)
  show ?case
  proof (cases "bs + w \<le> t")
    case False
    with Cons.prems have "\<exists>t\<in>set ts. bs + w \<le> t" by auto
    from Cons.IH [OF this, of "Suc bc"] False show ?thesis by simp
  next
    case True
    let ?zs = "if iz then zero_bins w (bs + w) (t div w * w) else []"
    from nat_loop_extends [of w iz ts "(bs, bc) # ?zs" "t div w * w" 1]
    obtain ext where "fst (nat_loop w iz ts ((bs, bc) # ?zs) (t div w * w) 1) = ((bs, bc) # ?zs) @ ext"
      by blast
    with True have "fst (nat_loop w iz (t # ts) [] bs bc) = (bs, bc) # (?zs @ ext)"
      by simp
    then show ?thesis by blast
  qed
qed

text \<open>
  C7 (literal start anchor), as the claim states it, fails: the line
  \<^verbatim>\<open>bin_start = (bin_start / bin_width) * bin_width  # Make sure we start on bin boundary\<close>
  is applied to a given \<^verbatim>\<open>start_t\<close> as well. For \<^verbatim>\<open>start_t = 3\<close>, \<^verbatim>\<open>bin_width = 5\<close> and
  \<^verbatim>\<open>times = [4, 12]\<close> the first emitted entry starts at 0, not at 3.
\<close>

theorem literal_start_counterexample:
  "sorted [4, 12 :: 64 word] \<and> 0 < sint (5 :: 32 word) \<and>
   bin_photons [4, 12] 5 3 (- 1) True =
     Inr [\<lparr>start_t = 0, count = 1\<rparr>, \<lparr>start_t = 5, count = 0\<rparr>] \<and>
   start_t (hd [\<lparr>start_t = 0, count = 1\<rparr>, \<lparr>start_t = 5, count = 0\<rparr>]) \<noteq> 3"
  by (simp add: eval_defs)

text \<open>
  C7, amended. A given \<^verbatim>\<open>start_t\<close> is floor-aligned to a multiple of \<^verbatim>\<open>bin_width\<close> like
  the first event is; it is the literal start of the first bin only when it is such a
  multiple. For every non-empty sorted \<^verbatim>\<open>times\<close>, \<^verbatim>\<open>bin_width > 0\<close> and given \<^verbatim>\<open>start_t\<close>
  (no 64-bit operation wrapping), when some event lies at or beyond the end of the first
  bin, the function returns a non-empty result whose first entry has
  \<^verbatim>\<open>start_t = floor(start_t / bin_width) * bin_width\<close>.
\<close>

theorem first_entry_starts_at_aligned_start:
  assumes "sorted times'"
    and "times' \<noteq> []"
    and "0 < sint bin_width"
    and "start_arg \<noteq> - 1"
    and "no_wrap times' bin_width start_arg end_arg"
    and "\<exists>t\<in>set times'. floor_aligned bin_width start_arg + nat (sint bin_width) \<le> unat t"
  shows "\<exists>b rest. bin_photons times' bin_width start_arg end_arg include_zeros = Inr (b # rest) \<and>
           unat (start_t b) = floor_aligned bin_width start_arg"
proof -
  define w where "w = nat (sint bin_width)"
  define b0 where "b0 = nat_first_start times' w start_arg"
  let ?nb = "nat_photons times' bin_width start_arg end_arg include_zeros"
  from assms(4) have ne: "start_arg = - 1 \<longrightarrow> times' \<noteq> []" by simp
  have run: "bin_photons times' bin_width start_arg end_arg include_zeros = Inr (map to_bin ?nb)"
    using assms(3,5) ne by (rule bin_photons_nat)
  have b0: "b0 = floor_aligned bin_width start_arg"
    using assms(4) by (simp add: b0_def w_def nat_first_start_def floor_aligned_def)
  obtain buf bs bc where r: "nat_loop w include_zeros (map unat times') [] b0 0 = (buf, bs, bc)"
    by (cases "nat_loop w include_zeros (map unat times') [] b0 0") auto
  note np = nat_photons_eq [OF r [unfolded w_def b0_def], of end_arg, folded w_def]
  from assms(6) have "\<exists>t\<in>set (map unat times'). b0 + w \<le> t"
    by (simp add: b0 w_def)
  from nat_loop_first [OF this, of include_zeros 0] r
  obtain c rest where buf: "buf = (b0, c) # rest" by auto
  then obtain rest' where nb: "?nb = (b0, c) # rest'"
    unfolding np by simp
  then have "(b0, c) \<in> set ?nb" by simp
  with assms(3,5) ne have "b0 < 2 ^ 64"
    using nat_photons_start_bound [of bin_width times' start_arg end_arg "(b0, c)" include_zeros] by simp
  then have "unat (start_t (to_bin (b0, c))) = b0"
    by (simp add: start_t_to_bin unat_of_nat64)
  with run nb b0 show ?thesis by simp
qed

theorem first_entry_starts_at_aligned_start_witness:
  "sorted [4, 12 :: 64 word] \<and> [4, 12 :: 64 word] \<noteq> [] \<and> 0 < sint (5 :: 32 word) \<and>
   (3 :: 64 word) \<noteq> - 1 \<and> no_wrap [4, 12] 5 3 (- 1) \<and>
   (\<exists>t\<in>set [4, 12 :: 64 word]. floor_aligned 5 3 + nat (sint (5 :: 32 word)) \<le> unat t) \<and>
   (\<exists>b rest. bin_photons [4, 12] 5 3 (- 1) True = Inr (b # rest) \<and>
      unat (start_t b) = floor_aligned 5 3)"
proof -
  have h: "sorted [4, 12 :: 64 word]" "[4, 12 :: 64 word] \<noteq> []" "0 < sint (5 :: 32 word)"
    "(3 :: 64 word) \<noteq> - 1" "no_wrap [4, 12] 5 3 (- 1)"
    "\<exists>t\<in>set [4, 12 :: 64 word]. floor_aligned 5 3 + nat (sint (5 :: 32 word)) \<le> unat t"
    by (simp_all add: no_wrap_def floor_aligned_def)
  from first_entry_starts_at_aligned_start [OF h, of True] h show ?thesis
    by simp
qed

section \<open>Counts\<close>

lemma cnt_snoc: "cnt w s (ps @ [t]) = cnt w s ps + (if s \<le> t \<and> t < s + w then 1 else 0)"
  by (simp add: cnt_def)

lemma cnt_append: "cnt w s (ps @ qs) = cnt w s ps + cnt w s qs"
  by (simp add: cnt_def)

lemma cnt_below: "\<forall>t\<in>set ps. t < s \<Longrightarrow> cnt w s ps = 0"
  by (induction ps) (simp_all add: cnt_def)

lemma multiple_gap:
  assumes "a mod w = 0" and "b mod w = 0" and "a < (b::nat)"
  shows "a + w \<le> b"
proof -
  from assms(1) have "w dvd a" by (simp add: mod_eq_0_iff_dvd)
  then obtain k where a: "a = w * k" by (rule dvdE)
  from assms(2) have "w dvd b" by (simp add: mod_eq_0_iff_dvd)
  then obtain l where b: "b = w * l" by (rule dvdE)
  from assms(3) a b have "k < l" by simp
  then have "Suc k \<le> l" by simp
  then have "w * Suc k \<le> w * l" by (rule mult_le_mono2)
  with a b show ?thesis by simp
qed

lemma counted_stay:
  assumes "counted w ps buf bs bc" and "bs \<le> t" and "\<not> bs + w \<le> t"
  shows "counted w (ps @ [t]) buf bs (Suc bc)"
proof -
  have "snd p = cnt w (fst p) (ps @ [t])" if "p \<in> set buf" for p
  proof -
    from assms(1) that have "fst p + w \<le> bs" and "snd p = cnt w (fst p) ps"
      by (simp_all add: counted_def)
    with assms(2) show ?thesis by (simp add: cnt_snoc)
  qed
  with assms show ?thesis
    by (simp add: counted_def cnt_snoc)
qed

lemma counted_cross:
  assumes w: "0 < w" and c: "counted w ps buf bs bc" and le: "bs + w \<le> t"
  shows "counted w (ps @ [t]) (buf @ (bs, bc) # (if iz then zero_bins w (bs + w) (t div w * w) else []))
           (t div w * w) 1"
proof -
  let ?ns = "t div w * w"
  let ?zs = "if iz then zero_bins w (bs + w) ?ns else []"
  from c have al: "bs mod w = 0" and bc: "bc = cnt w bs ps" and ps: "\<forall>x\<in>set ps. x < bs + w"
    by (simp_all add: counted_def)
  from al have "(bs + w) mod w = 0" by simp
  then have e: "bs + w \<le> ?ns"
    using le by (rule multiple_le_floor)
  have ns_le: "?ns \<le> t" by (rule floor_multiple_le)
  have "t = ?ns + t mod w" by simp
  moreover have "t mod w < w" using w by simp
  ultimately have t_lt: "t < ?ns + w" by linarith
  have "\<forall>x\<in>set ps. x < ?ns"
    using ps e by auto
  then have "cnt w ?ns ps = 0" by (rule cnt_below)
  with ns_le t_lt have one: "1 = cnt w ?ns (ps @ [t])"
    by (simp add: cnt_snoc)
  have all_lt: "\<forall>x\<in>set (ps @ [t]). x < ?ns + w"
    using ps e t_lt by auto
  have entry: "fst p mod w = 0 \<and> fst p + w \<le> ?ns \<and> snd p = cnt w (fst p) (ps @ [t])"
    if "p \<in> set (buf @ (bs, bc) # ?zs)" for p
  proof -
    from that consider "p \<in> set buf" | "p = (bs, bc)" | "p \<in> set ?zs" by auto
    then show ?thesis
    proof cases
      case 1
      with c have "fst p mod w = 0" and "fst p + w \<le> bs" and "snd p = cnt w (fst p) ps"
        by (simp_all add: counted_def)
      with le e show ?thesis by (simp add: cnt_snoc)
    next
      case 2
      with al bc le e show ?thesis by (simp add: cnt_snoc)
    next
      case 3
      then have z: "snd p = 0" and m: "fst p \<in> set (zero_starts w (bs + w) ?ns)"
        by (simp_all add: set_zero_bins split: if_splits)
      from zero_starts_member [OF w m] al have j: "bs + w \<le> fst p" "fst p < ?ns" "fst p mod w = 0"
        by simp_all
      have gap: "fst p + w \<le> ?ns"
        using j(3) _ j(2) by (rule multiple_gap) simp
      have "\<forall>x\<in>set ps. x < fst p" using ps j(1) by auto
      then have "cnt w (fst p) ps = 0" by (rule cnt_below)
      moreover from gap ns_le have "fst p + w \<le> t" by (rule le_trans)
      ultimately show ?thesis using gap z j(3) by (simp add: cnt_snoc)
    qed
  qed
  show ?thesis
    unfolding counted_def using one all_lt entry by simp
qed

lemma nat_loop_counted:
  "0 < w \<Longrightarrow> counted w ps buf bs bc \<Longrightarrow> sorted ts \<Longrightarrow> \<forall>t\<in>set ts. bs \<le> t \<Longrightarrow>
   nat_loop w iz ts buf bs bc = (buf', bs', bc') \<Longrightarrow> counted w (ps @ ts) buf' bs' bc'"
proof (induction ts arbitrary: ps buf bs bc)
  case Nil
  then show ?case by simp
next
  case (Cons t ts)
  from Cons.prems(3) have s: "sorted ts" and ge: "\<forall>x\<in>set ts. t \<le> x" by simp_all
  from Cons.prems(4) have bt: "bs \<le> t" by simp
  show ?case
  proof (cases "bs + w \<le> t")
    case False
    from Cons.prems(2) bt False have "counted w (ps @ [t]) buf bs (Suc bc)"
      by (rule counted_stay)
    then have c: "counted w (ps @ [t]) buf bs (Suc bc)" .
    have g: "\<forall>x\<in>set ts. bs \<le> x"
      using Cons.prems(4) by simp
    have l: "nat_loop w iz ts buf bs (Suc bc) = (buf', bs', bc')"
      using Cons.prems(5) False by simp
    from Cons.IH [OF Cons.prems(1) c s g l] show ?thesis
      by simp
  next
    case True
    let ?ns = "t div w * w"
    from Cons.prems(1,2) True
    have "counted w (ps @ [t]) (buf @ (bs, bc) # (if iz then zero_bins w (bs + w) ?ns else [])) ?ns 1"
      by (rule counted_cross)
    then have c: "counted w (ps @ [t]) (buf @ (bs, bc) # (if iz then zero_bins w (bs + w) ?ns else [])) ?ns 1" .
    have g: "\<forall>x\<in>set ts. ?ns \<le> x"
      using ge floor_multiple_le [of t w] by (meson le_trans)
    have l: "nat_loop w iz ts (buf @ (bs, bc) # (if iz then zero_bins w (bs + w) ?ns else [])) ?ns 1 =
               (buf', bs', bc')"
      using Cons.prems(5) True by simp
    from Cons.IH [OF Cons.prems(1) c s g l] show ?thesis
      by simp
  qed
qed


lemma sorted_map_unat: "sorted (ts :: 64 word list) \<Longrightarrow> sorted (map unat ts)"
  by (induction ts) (auto simp: word_le_nat_alt)

lemma sorted_hd_le: "sorted ts \<Longrightarrow> t \<in> set ts \<Longrightarrow> hd ts \<le> (t :: 'a :: linorder)"
  by (cases ts) auto

lemma nat_first_start_le:
  assumes "sorted times'"
    and "start_arg = - 1 \<longrightarrow> times' \<noteq> []"
    and "start_arg \<noteq> - 1 \<longrightarrow> (\<forall>t\<in>set times'. start_arg \<le> t)"
    and "t \<in> set times'"
  shows "nat_first_start times' w start_arg \<le> unat t"
proof -
  let ?x = "if start_arg = - 1 then hd times' else start_arg"
  have "?x \<le> t"
    using assms sorted_hd_le [of times' t] by auto
  then have "unat ?x \<le> unat t"
    by (simp add: word_le_nat_alt)
  moreover have "nat_first_start times' w start_arg \<le> unat ?x"
    unfolding nat_first_start_def by (rule floor_multiple_le)
  ultimately show ?thesis by (rule le_trans [rotated])
qed

lemma nat_photons_counts:
  assumes bw: "0 < sint bw"
    and so: "sorted times'"
    and ne: "start_arg = - 1 \<longrightarrow> times' \<noteq> []"
    and st: "start_arg \<noteq> - 1 \<longrightarrow> (\<forall>t\<in>set times'. start_arg \<le> t)"
    and p: "p \<in> set (nat_photons times' bw start_arg end_arg iz)"
  shows "snd p = cnt (nat (sint bw)) (fst p) (map unat times')"
proof -
  define w where "w = nat (sint bw)"
  define b0 where "b0 = nat_first_start times' w start_arg"
  obtain buf bs bc where r: "nat_loop w iz (map unat times') [] b0 0 = (buf, bs, bc)"
    by (cases "nat_loop w iz (map unat times') [] b0 0") auto
  have w0: "0 < w" using bw w_def by simp
  note np = nat_photons_eq [OF r [unfolded w_def b0_def], of end_arg, folded w_def]
  have c0: "counted w [] [] b0 0"
    by (simp add: counted_def b0_def nat_first_start_aligned cnt_def)
  have ge: "\<forall>t\<in>set (map unat times'). b0 \<le> t"
    using nat_first_start_le [OF so ne st] by (simp add: b0_def)
  from nat_loop_counted [OF w0 c0 sorted_map_unat [OF so] ge r]
  have c: "counted w (map unat times') buf bs bc" by simp
  from p consider "p \<in> set buf" | "p \<in> set (zero_bins w (bs + w) (unat end_arg))"
    unfolding np by (auto split: if_splits)
  then show ?thesis
  proof cases
    case 1
    with c show ?thesis by (simp add: counted_def w_def)
  next
    case 2
    then have z: "snd p = 0" and m: "fst p \<in> set (zero_starts w (bs + w) (unat end_arg))"
      by (simp_all add: set_zero_bins)
    from zero_starts_member [OF w0 m] have "bs + w \<le> fst p" by simp
    moreover from c have "\<forall>t\<in>set (map unat times'). t < bs + w"
      by (simp add: counted_def)
    ultimately have "\<forall>t\<in>set (map unat times'). t < fst p"
      by (meson less_le_trans)
    then have "cnt w (fst p) (map unat times') = 0" by (rule cnt_below)
    with z show ?thesis by (simp add: w_def)
  qed
qed

lemma events_in_bin_to_bin:
  assumes "fst p < 2 ^ 64"
  shows "events_in_bin bw (to_bin p) times' = cnt (nat (sint bw)) (fst p) (map unat times')"
proof -
  have "in_bin bw (to_bin p) = (\<lambda>t. fst p \<le> unat t \<and> unat t < fst p + nat (sint bw))"
    by (rule ext) (simp add: in_bin_def start_t_to_bin unat_of_nat64 [OF assms])
  then show ?thesis
    by (simp add: events_in_bin_def cnt_def length_filter_map comp_def)
qed

lemma unat_count_to_bin: "unat (count (to_bin p)) = snd p mod 2 ^ 16"
  by (simp add: count_to_bin unat_of_nat)

lemma emitted_counts:
  assumes bw: "0 < sint bw"
    and so: "sorted times'"
    and nw: "no_wrap times' bw start_arg end_arg"
    and ne: "start_arg = - 1 \<longrightarrow> times' \<noteq> []"
    and st: "start_arg \<noteq> - 1 \<longrightarrow> (\<forall>t\<in>set times'. start_arg \<le> t)"
    and p: "p \<in> set (nat_photons times' bw start_arg end_arg iz)"
  shows "unat (count (to_bin p)) = events_in_bin bw (to_bin p) times' mod 2 ^ 16"
proof -
  have "fst p < 2 ^ 64"
    using bw nw ne p by (rule nat_photons_start_bound)
  then have "events_in_bin bw (to_bin p) times' = cnt (nat (sint bw)) (fst p) (map unat times')"
    by (rule events_in_bin_to_bin)
  also have "\<dots> = snd p"
    using bw so ne st p by (rule nat_photons_counts [symmetric])
  finally show ?thesis
    by (simp add: unat_count_to_bin)
qed

lemma event_loop_single_replicate:
  "\<not> bs + scast bw \<le> t \<Longrightarrow>
   event_loop_single bw iz (replicate n t @ ts) buf bs bc =
     event_loop_single bw iz ts buf bs (bc + of_nat n)"
proof (induction n arbitrary: bc)
  case 0
  then show ?case by simp
next
  case (Suc n)
  from Suc.IH [OF Suc.prems, of "bc + 1"] Suc.prems show ?case
    by (simp add: ac_simps)
qed

lemma wrapped_run:
  "bin_photons (replicate 65536 12 @ [17]) 5 10 (- 1) False = Inr [\<lparr>start_t = 10, count = 0\<rparr>]"
proof -
  have "event_loop_single 5 False (replicate 65536 12 @ [17]) [] 10 0 =
          event_loop_single 5 False [17] [] 10 (0 + of_nat 65536)"
    by (rule event_loop_single_replicate) simp
  then show ?thesis
    by (simp add: bin_photons_eq_single bin_photons_single_def first_bin_start_def)
qed

lemma shifted_run:
  "bin_photons (0 # replicate 65536 12 @ [17]) 5 10 (- 1) False =
     Inr [\<lparr>start_t = 10, count = 1\<rparr>]"
proof -
  have "event_loop_single 5 False (0 # replicate 65536 12 @ [17]) [] 10 0 =
          event_loop_single 5 False (replicate 65536 12 @ [17]) [] 10 (0 + 1)"
    by simp
  also have "\<dots> = event_loop_single 5 False [17] [] 10 (0 + 1 + of_nat 65536)"
    by (rule event_loop_single_replicate) simp
  finally show ?thesis
    by (simp add: bin_photons_eq_single bin_photons_single_def first_bin_start_def)
qed

text \<open>
  C10 (count wraparound), as the claim states it, fails: the pass only tests
  \<^verbatim>\<open>times[i] >= bin_start + bin_width\<close>, so an event below a given \<^verbatim>\<open>start_t\<close> is counted
  into the first bin. For the sorted events 0, then 65536 times 12, then 17, with
  \<^verbatim>\<open>bin_width = 5\<close> and \<^verbatim>\<open>start_t = 10\<close>, the bin \<open>[10, 15)\<close> holds 65536 events and is
  stored with \<^verbatim>\<open>count = 1\<close>, not with \<open>65536 mod 2^16 = 0\<close>.
\<close>

theorem count_wraparound_counterexample:
  "sorted (0 # replicate 65536 12 @ [17 :: 64 word]) \<and> 0 < sint (5 :: 32 word) \<and>
   bin_photons (0 # replicate 65536 12 @ [17]) 5 10 (- 1) False =
     Inr [\<lparr>start_t = 10, count = 1\<rparr>] \<and>
   events_in_bin 5 \<lparr>start_t = 10, count = 1\<rparr> (0 # replicate 65536 12 @ [17]) = 65536 \<and>
   unat (count \<lparr>start_t = 10, count = 1\<rparr>) \<noteq> 65536 mod 2 ^ 16"
  by (simp add: shifted_run sorted_append events_in_bin_def in_bin_def)

text \<open>
  C10, amended. For every sorted \<^verbatim>\<open>times\<close> and \<^verbatim>\<open>bin_width > 0\<close>, with a non-empty
  \<^verbatim>\<open>times\<close> or a given \<^verbatim>\<open>start_t\<close>, a given \<^verbatim>\<open>start_t\<close> not beyond the first event, and
  timestamps in the range where no 64-bit operation wraps (\<open>no_wrap\<close>), the function
  returns (no error is raised) and the count stored in every emitted entry is the number of
  input events in \<open>[start_t, start_t + bin_width)\<close> modulo \<open>2^16\<close>: no saturation and no
  widening. With more than 65535 events in a bin the stored count is therefore the true
  count minus a multiple of 65536.
\<close>

theorem stored_count_wraps_modulo_65536:
  assumes "sorted times'"
    and "0 < sint bin_width"
    and "no_wrap times' bin_width start_arg end_arg"
    and "times' \<noteq> [] \<or> start_arg \<noteq> - 1"
    and "start_arg \<noteq> - 1 \<longrightarrow> (\<forall>t\<in>set times'. start_arg \<le> t)"
  shows "\<exists>bins. bin_photons times' bin_width start_arg end_arg include_zeros = Inr bins \<and>
           (\<forall>b\<in>set bins. unat (count b) = events_in_bin bin_width b times' mod 2 ^ 16)"
proof -
  let ?nb = "nat_photons times' bin_width start_arg end_arg include_zeros"
  from assms(4) have ne: "start_arg = - 1 \<longrightarrow> times' \<noteq> []" by auto
  have run: "bin_photons times' bin_width start_arg end_arg include_zeros = Inr (map to_bin ?nb)"
    using assms(2,3) ne by (rule bin_photons_nat)
  have "\<forall>b\<in>set (map to_bin ?nb). unat (count b) = events_in_bin bin_width b times' mod 2 ^ 16"
    using emitted_counts [OF assms(2,1,3) ne assms(5)] by simp
  with run show ?thesis by blast
qed

text \<open>
  At 65536 events in the bin \<open>[10, 15)\<close>, with \<^verbatim>\<open>start_t = 10\<close> not beyond the first event,
  the stored count is 0.
\<close>

theorem stored_count_wraps_modulo_65536_witness:
  "sorted (replicate 65536 12 @ [17 :: 64 word]) \<and> 0 < sint (5 :: 32 word) \<and>
   no_wrap (replicate 65536 12 @ [17]) 5 10 (- 1) \<and> replicate 65536 12 @ [17 :: 64 word] \<noteq> [] \<and>
   list_all (\<lambda>t. 10 \<le> t) (replicate 65536 12 @ [17 :: 64 word]) \<and>
   (\<exists>bins. bin_photons (replicate 65536 12 @ [17]) 5 10 (- 1) False = Inr bins \<and>
      (\<forall>b\<in>set bins. unat (count b) = events_in_bin 5 b (replicate 65536 12 @ [17]) mod 2 ^ 16)) \<and>
   bin_photons (replicate 65536 12 @ [17]) 5 10 (- 1) False = Inr [\<lparr>start_t = 10, count = 0\<rparr>] \<and>
   events_in_bin 5 \<lparr>start_t = 10, count = 0\<rparr> (replicate 65536 12 @ [17]) = 65536"
proof -
  have h: "sorted (replicate 65536 12 @ [17 :: 64 word])" "0 < sint (5 :: 32 word)"
    "no_wrap (replicate 65536 12 @ [17]) 5 10 (- 1)"
    "replicate 65536 12 @ [17 :: 64 word] \<noteq> [] \<or> (10 :: 64 word) \<noteq> - 1"
    "(10 :: 64 word) \<noteq> - 1 \<longrightarrow> (\<forall>t\<in>set (replicate 65536 12 @ [17 :: 64 word]). 10 \<le> t)"
    by (simp_all add: no_wrap_def sorted_append)
  have a: "list_all (\<lambda>t. 10 \<le> t) (replicate 65536 12 @ [17 :: 64 word])"
    by (simp add: list_all_iff)
  have n: "events_in_bin 5 \<lparr>start_t = 10, count = 0\<rparr> (replicate 65536 12 @ [17]) = 65536"
    by (simp add: events_in_bin_def in_bin_def)
  note main = stored_count_wraps_modulo_65536 [OF h, of False]
  from h(1-3) a main wrapped_run n show ?thesis
    by (intro conjI) simp_all
qed

section \<open>Behaviour at concrete inputs\<close>

text \<open>
  C2 (final bin emission). The claim: after the pass the final in-progress bin is emitted, so
  \<^verbatim>\<open>times = [0, 0, 5, 5, 5, 12]\<close> with \<^verbatim>\<open>bin_width = 5\<close> and \<^verbatim>\<open>include_zeros = true\<close> gives
  \<^verbatim>\<open>[(0,2), (5,3), (10,1)]\<close>. The function writes an entry only when a later event crosses
  the end of the current bin and never writes the bin in progress when the loop ends: on this
  input it returns \<^verbatim>\<open>[(0,2), (5,3)]\<close>, without the bin of the last event.
\<close>

theorem final_bin_missing:
  "bin_photons [0, 0, 5, 5, 5, 12] 5 (- 1) (- 1) True =
     Inr [\<lparr>start_t = 0, count = 2\<rparr>, \<lparr>start_t = 5, count = 3\<rparr>]"
  by (simp add: eval_defs)

text \<open>
  C4 (zero-fill completeness). The claim: with \<^verbatim>\<open>include_zeros = true\<close> the emitted starts
  are the arithmetic progression from the first bin on, without gaps, also when a given
  \<^verbatim>\<open>end_t\<close> appends zero-count bins. The trailing loop starts at \<^verbatim>\<open>bin_start + bin_width\<close>
  although the bin at \<^verbatim>\<open>bin_start\<close> was never written: for \<^verbatim>\<open>times = [0, 7]\<close>,
  \<^verbatim>\<open>bin_width = 5\<close>, \<^verbatim>\<open>end_t = 20\<close> the result is \<^verbatim>\<open>[(0,1), (10,0), (15,0)]\<close>, with a gap
  at 5.
\<close>

theorem trailing_zero_fill_gap:
  "bin_photons [0, 7] 5 (- 1) 20 True =
     Inr [\<lparr>start_t = 0, count = 1\<rparr>, \<lparr>start_t = 10, count = 0\<rparr>, \<lparr>start_t = 15, count = 0\<rparr>]"
  by (simp add: eval_defs)

text \<open>
  C6 (empty input). The claim: an empty \<^verbatim>\<open>times\<close> with no \<^verbatim>\<open>start_t\<close> returns an empty
  output and \<^verbatim>\<open>times[0]\<close> is never read out of bounds. The function reads \<^verbatim>\<open>times[0]\<close>
  whenever \<^verbatim>\<open>start_t\<close> is not given, before anything else: on an empty array that is an
  \<^verbatim>\<open>IndexError\<close>, for every \<^verbatim>\<open>bin_width\<close>, \<^verbatim>\<open>end_t\<close> and \<^verbatim>\<open>include_zeros\<close>.
\<close>

theorem empty_times_index_error:
  "bin_photons [] bin_width (- 1) end_arg include_zeros = Inl IndexError"
  by (simp add: bin_photons_def)

text \<open>
  C1 (count conservation). The claim: the emitted counts sum to the number of input events
  in the effective range, or to the number of all events when no range is given. The bin in
  progress when the loop ends is never written, so its events are in no emitted count: for
  \<^verbatim>\<open>times = [0, 7, 12]\<close> and \<^verbatim>\<open>bin_width = 5\<close>, no range given, the function returns
  \<^verbatim>\<open>[(0,1), (5,1)]\<close>, whose counts sum to 2, for 3 events.
\<close>

theorem counts_miss_final_bin:
  "bin_photons [0, 7, 12] 5 (- 1) (- 1) True =
     Inr [\<lparr>start_t = 0, count = 1\<rparr>, \<lparr>start_t = 5, count = 1\<rparr>] \<and>
   total_count [\<lparr>start_t = 0, count = 1\<rparr>, \<lparr>start_t = 5, count = 1\<rparr>] = 2 \<and>
   length [0, 7, 12 :: 64 word] = 3"
  by (simp add: eval_defs total_count_def)

text \<open>
  C5 (zero-fill suppression). The claim: with \<^verbatim>\<open>include_zeros = false\<close> no emitted entry has
  \<^verbatim>\<open>count = 0\<close>, for any \<^verbatim>\<open>start_t\<close> and \<^verbatim>\<open>end_t\<close>; the docstring says the same ("only bins
  which contain at least one photon"). The pass writes the current bin at every crossing
  without looking at its count: for \<^verbatim>\<open>times = [12, 17]\<close>, \<^verbatim>\<open>bin_width = 5\<close> and
  \<^verbatim>\<open>start_t = 0\<close> the first bin \<open>[0, 5)\<close> is empty and is emitted as \<^verbatim>\<open>(0,0)\<close>.
\<close>

theorem empty_first_bin_emitted:
  "bin_photons [12, 17] 5 0 (- 1) False =
     Inr [\<lparr>start_t = 0, count = 0\<rparr>, \<lparr>start_t = 10, count = 1\<rparr>]"
  by (simp add: eval_defs)

section \<open>Buffering\<close>

lemma init_buffer_chunks_full: "chunks_full init_buffer"
  by (simp add: chunks_full_def init_buffer_def)

lemma emit_chunks_full: "buffer_ok s \<Longrightarrow> chunks_full s \<Longrightarrow> chunks_full (emit b s)"
  by (auto simp: buffer_ok_def chunks_full_def emit_def Let_def)

lemma zero_fill_chunks_full:
  "buffer_ok s \<Longrightarrow> chunks_full s \<Longrightarrow> zero_fill js s = Inr s' \<Longrightarrow> chunks_full s'"
proof (induction js arbitrary: s)
  case Nil
  then show ?case by simp
next
  case (Cons j js)
  let ?s1 = "emit \<lparr>start_t = word_of_int j, count = 0\<rparr> s"
  from Cons.prems(3) have l: "zero_fill js ?s1 = Inr s'"
    by (simp split: if_splits)
  from Cons.prems(1) have "buffer_ok ?s1" by (rule emit_ok)
  moreover from Cons.prems(1,2) have "chunks_full ?s1" by (rule emit_chunks_full)
  ultimately show ?case using l by (rule Cons.IH)
qed

lemma zero_fill_ok: "buffer_ok s \<Longrightarrow> zero_fill js s = Inr s' \<Longrightarrow> buffer_ok s'"
  using zero_fill_single_sim [of s js] by simp

lemma event_loop_chunks_full:
  "buffer_ok s \<Longrightarrow> chunks_full s \<Longrightarrow> event_loop bw iz ts s bs bc = Inr (s', bs', bc') \<Longrightarrow>
   chunks_full s'"
proof (induction ts arbitrary: s bs bc)
  case Nil
  then show ?case by simp
next
  case (Cons t ts)
  show ?case
  proof (cases "bs + scast bw \<le> t")
    case False
    with Cons show ?thesis by simp
  next
    case True
    let ?ns = "(t div scast bw) * scast bw"
    let ?s1 = "emit \<lparr>start_t = bs, count = bc\<rparr> s"
    let ?js = "py_range (uint (bs + scast bw)) (uint ?ns) (sint bw)"
    from Cons.prems(1) have ok1: "buffer_ok ?s1" by (rule emit_ok)
    from Cons.prems(1,2) have f1: "chunks_full ?s1" by (rule emit_chunks_full)
    obtain s2 where s2: "(if iz then zero_fill ?js ?s1 else Inr ?s1) = Inr s2"
      and l: "event_loop bw iz ts s2 ?ns (0 + 1) = Inr (s', bs', bc')"
      using Cons.prems(3) True by (auto simp: Let_def split: sum.splits)
    have "buffer_ok s2 \<and> chunks_full s2"
    proof (cases iz)
      case True
      with s2 ok1 f1 show ?thesis
        by (auto intro: zero_fill_ok zero_fill_chunks_full)
    next
      case False
      with s2 ok1 f1 show ?thesis by simp
    qed
    then show ?thesis using l Cons.IH by blast
  qed
qed

lemma length_concat_full:
  "\<forall>c\<in>set xss. length c = n \<Longrightarrow> length (concat xss) = length xss * n"
  by (induction xss) simp_all

lemma length_contents:
  assumes "buffer_ok s" and "chunks_full s"
  shows "length (contents s) = length (chunks s) * chunk_sz + bin s"
proof -
  from assms(2) have "length (concat (chunks s)) = length (chunks s) * chunk_sz"
    unfolding chunks_full_def by (rule length_concat_full)
  moreover from assms(1) have "length (take (bin s) (chunk s)) = bin s"
    by (simp add: buffer_ok_def)
  ultimately show ?thesis by (simp add: contents_def)
qed

lemma length_zero_bins: "length (zero_bins w a b) = (b - a + w - 1) div w"
  by (simp add: zero_bins_def zero_starts_def)


text \<open>
  C9 (buffering equivalence). For every input, the function with its chunks of 10000 entries,
  flushed when full and concatenated at the end, returns exactly what the same algorithm
  returns when it appends every entry to one growing list: the same entries in the same
  order, or the same error. Nothing is assumed of the input, so results of more than 10000
  entries, with several flushes, are included.
\<close>

theorem chunked_buffer_equals_single_buffer:
  "bin_photons times' bin_width start_arg end_arg include_zeros =
     bin_photons_single times' bin_width start_arg end_arg include_zeros"
  by (rule bin_photons_eq_single)

text \<open>
  An input whose result spans two full chunks: \<^verbatim>\<open>times = [0, 100000]\<close> with
  \<^verbatim>\<open>bin_width = 5\<close> gives 20000 entries, the buffer is flushed twice, and the result is the
  one of the single buffer.
\<close>

theorem chunked_buffer_equals_single_buffer_witness:
  "bin_photons [0, 100000] 5 (- 1) (- 1) True = bin_photons_single [0, 100000] 5 (- 1) (- 1) True \<and>
   (\<exists>bins. bin_photons [0, 100000] 5 (- 1) (- 1) True = Inr bins \<and> length bins = 20000) \<and>
   (\<exists>s bs bc. event_loop 5 True [0, 100000] init_buffer (first_bin_start [0, 100000] 5 (- 1)) 0 =
      Inr (s, bs, bc) \<and> length (chunks s) = 2)"
proof -
  let ?nb = "(0, 1) # zero_bins 5 5 100000"
  have bw: "0 < sint (5 :: 32 word)" by simp
  have w: "(5 :: nat) = nat (sint (5 :: 32 word))" by simp
  have nl: "nat_loop 5 True (map unat [0, 100000 :: 64 word]) [] 0 0 = (?nb, 100000, 1)"
    by simp
  have single: "event_loop_single 5 True [0, 100000] (map to_bin []) (of_nat 0) (of_nat 0) =
                  Inr (to_state (nat_loop 5 True (map unat [0, 100000 :: 64 word]) [] 0 0))"
    by (rule event_loop_single_nat [OF bw w]) simp_all
  have fb: "first_bin_start [0, 100000] 5 (- 1) = 0"
    by (simp add: first_bin_start_def)
  from single have single': "event_loop_single 5 True [0, 100000] [] 0 0 =
      Inr (map to_bin ?nb, 100000, 1)"
    unfolding nl by (simp add: to_state_def)
  have len: "length (map to_bin ?nb) = 20000"
    by (simp add: length_zero_bins)
  note sim = event_loop_single_sim [OF init_buffer_ok, of 5 True "[0, 100000]" 0 0]
  obtain s bs bc where r: "event_loop 5 True [0, 100000] init_buffer 0 0 = Inr (s, bs, bc)"
    using sim single' by (cases "event_loop 5 True [0, 100000] init_buffer 0 0")
      (auto simp: contents_init_buffer)
  from sim r single' have ok: "buffer_ok s" and c: "contents s = map to_bin ?nb"
    by (simp_all add: contents_init_buffer)
  have full: "chunks_full s"
    using init_buffer_ok init_buffer_chunks_full r by (rule event_loop_chunks_full)
  from length_contents [OF ok full] c len
  have "length (chunks s) * chunk_sz + bin s = 20000" by simp
  moreover from ok have "bin s < chunk_sz" by (simp add: buffer_ok_def)
  ultimately have "length (chunks s) = 2"
    by (simp add: chunk_sz_def)
  with r fb have third: "\<exists>s bs bc. event_loop 5 True [0, 100000] init_buffer
      (first_bin_start [0, 100000] 5 (- 1)) 0 = Inr (s, bs, bc) \<and> length (chunks s) = 2"
    by auto
  have "bin_photons_single [0, 100000] 5 (- 1) (- 1) True = Inr (map to_bin ?nb)"
    using single' by (simp add: bin_photons_single_def fb)
  with len have second: "\<exists>bins. bin_photons [0, 100000] 5 (- 1) (- 1) True = Inr bins \<and> length bins = 20000"
    unfolding bin_photons_eq_single by blast
  from chunked_buffer_equals_single_buffer [of "[0, 100000]" 5 "- 1" "- 1" True] second third
  show ?thesis by blast
qed

end
